theory Spec2Isabelle
  imports Complex_Main "HOL-Library.AList" "HOL-Library.Char_ord" "HOL-Library.List_Lexorder"
    "HOL-Library.Multiset" "HOL-Library.Product_Lexorder"
begin

section \<open>Text pipeline (core/text\_preprocessor.py)\<close>

text \<open>
  Python strings are modelled as \<^typ>\<open>string\<close>: a character is a code point below 256
  and strings compare lexicographically by code point, as Python's \<open>str\<close> does. The two
  external collaborators of the module are parameters of the model: \<open>unidecode\<close> (the
  library function, or the identity fallback of lines 13-18) and the Snowball stemmer.
\<close>

subsection \<open>Character classes\<close>

definition is_space :: "char \<Rightarrow> bool" where
  \<comment> \<open>\<open>\s\<close> of \<open>re\<close> on \<open>str\<close> patterns, and the whitespace of \<open>str.strip\<close> and \<open>str.split\<close>\<close>
  "is_space c = (of_char c \<in> {9, 10, 11, 12, 13, 28, 29, 30, 31, 32, 133, 160 :: nat})"

definition is_alnum_lower :: "char \<Rightarrow> bool" where
  \<comment> \<open>the class \<open>[a-z0-9]\<close>\<close>
  "is_alnum_lower c =
     ((97 \<le> (of_char c :: nat) \<and> (of_char c :: nat) \<le> 122) \<or>
      (48 \<le> (of_char c :: nat) \<and> (of_char c :: nat) \<le> 57))"

definition lower_char :: "char \<Rightarrow> char" where
  \<comment> \<open>\<open>str.lower\<close> on one code point below 256: A-Z and the capital letters of Latin-1\<close>
  "lower_char c = (let n = (of_char c :: nat) in
     if (65 \<le> n \<and> n \<le> 90) \<or> (192 \<le> n \<and> n \<le> 214) \<or> (216 \<le> n \<and> n \<le> 222)
     then char_of (n + 32) else c)"

definition lower :: "string \<Rightarrow> string" where
  "lower s = map lower_char s"

subsection \<open>normalize\_text and tokenize\<close>

definition blank_other :: "string \<Rightarrow> string" where
  \<comment> \<open>\<open>re.sub(r"[^a-z0-9\s]", " ", text)\<close>\<close>
  "blank_other s = map (\<lambda>c. if is_alnum_lower c \<or> is_space c then c else CHR '' '') s"

function collapse_ws :: "string \<Rightarrow> string" where
  \<comment> \<open>\<open>re.sub(r"\s+", " ", text)\<close>: every maximal run of whitespace becomes one space\<close>
  "collapse_ws [] = []"
| "collapse_ws (c # cs) =
     (if is_space c then CHR '' '' # collapse_ws (dropWhile is_space cs)
      else c # collapse_ws cs)"
  by pat_completeness auto
termination
  by (relation "measure length") (auto simp: length_dropWhile_le less_Suc_eq_le)

fun rstrip :: "string \<Rightarrow> string" where
  \<comment> \<open>drops the trailing whitespace\<close>
  "rstrip [] = []"
| "rstrip (c # cs) = (if is_space c \<and> rstrip cs = [] then [] else c # rstrip cs)"

definition strip :: "string \<Rightarrow> string" where
  \<comment> \<open>\<open>str.strip()\<close>\<close>
  "strip s = rstrip (dropWhile is_space s)"

definition normalize_text :: "(string \<Rightarrow> string) \<Rightarrow> string option \<Rightarrow> string" where
  \<comment> \<open>\<open>None\<close> is Python's \<open>None\<close>\<close>
  "normalize_text unidecode text =
     (case text of
        None \<Rightarrow> []
      | Some t \<Rightarrow> strip (collapse_ws (blank_other (lower (unidecode t)))))"

function split_ws :: "string \<Rightarrow> string list" where
  \<comment> \<open>\<open>str.split()\<close> without arguments: the maximal runs of non-whitespace\<close>
  "split_ws s =
     (let r = dropWhile is_space s in
      if r = [] then []
      else takeWhile (\<lambda>c. \<not> is_space c) r # split_ws (dropWhile (\<lambda>c. \<not> is_space c) r))"
  by pat_completeness auto
termination
proof (relation "measure length", goal_cases)
  case 1
  show ?case by simp
next
  case (2 s r)
  then obtain c cs where r: "dropWhile is_space s = c # cs"
    by (cases "dropWhile is_space s") auto
  then have "\<not> is_space c"
    using hd_dropWhile [of is_space s] by auto
  then have "length (dropWhile (\<lambda>c. \<not> is_space c) (c # cs)) \<le> length cs"
    by (simp add: length_dropWhile_le)
  moreover have "length (c # cs) \<le> length s"
    using length_dropWhile_le [of is_space s] r by simp
  ultimately show ?case using 2 r by simp
qed

definition tokenize :: "(string \<Rightarrow> string) \<Rightarrow> string option \<Rightarrow> string list" where
  "tokenize unidecode text =
     (let t = normalize_text unidecode text in if t = [] then [] else split_ws t)"

text \<open>The shape of the output of \<open>normalize_text\<close>: lowercase letters, digits and single
  spaces.\<close>

definition plain :: "char \<Rightarrow> bool" where
  "plain c = (is_alnum_lower c \<or> c = CHR '' '')"

fun spaced :: "string \<Rightarrow> bool" where
  "spaced [] = True"
| "spaced [c] = True"
| "spaced (c # d # cs) = ((c = CHR '' '' \<longrightarrow> d \<noteq> CHR '' '') \<and> spaced (d # cs))"

subsection \<open>The heuristic stemmer\<close>

definition endswith :: "string \<Rightarrow> string \<Rightarrow> bool" where
  "endswith w s = (length s \<le> length w \<and> drop (length w - length s) w = s)"

fun strip_suffix :: "string list \<Rightarrow> string \<Rightarrow> string option" where
  \<comment> \<open>the two \<open>for s in ...\<close> loops of \<open>_simple_stem\<close>: the first suffix that applies\<close>
  "strip_suffix [] word = None"
| "strip_suffix (s # ss) word =
     (if endswith word s \<and> length word \<ge> length s + 3
      then Some (take (length word - length s) word)
      else strip_suffix ss word)"

definition noun_suffixes :: "string list" where
  "noun_suffixes =
     [''mente'', ''aci'' @ [CHR 0xF3] @ ''n'', ''aciones'', ''amientos'', ''amiento'',
      ''imientos'', ''imiento'', ''idades'', ''idad'', ''anzas'', ''ancia'', ''ancia'',
      ''ismo'', ''ista'', ''istas'', ''able'', ''ibles'', ''mente'', ''mente'']"

definition verb_suffixes :: "string list" where
  "verb_suffixes =
     [''ar'', ''er'', ''ir'', ''ado'', ''ido'', ''ando'', ''iendo'',
      ''ar'' @ [CHR 0xE9], ''er'' @ [CHR 0xE9], ''ir'' @ [CHR 0xE9],
      ''ar'' @ [CHR 0xED] @ ''a'', ''er'' @ [CHR 0xED] @ ''a'', ''ir'' @ [CHR 0xED] @ ''a'']"

definition simple_stem :: "string \<Rightarrow> string" where
  "simple_stem word =
     (if length word \<le> 4 then word
      else case strip_suffix noun_suffixes word of
             Some w \<Rightarrow> w
           | None \<Rightarrow> (case strip_suffix verb_suffixes word of Some w \<Rightarrow> w | None \<Rightarrow> word))"

subsection \<open>The lazily initialised resources\<close>

datatype exn =
  RuntimeError | FileNotFoundError | LookupError | IndexError | KeyError | ValueError
  | TypeError | AttributeError | JSONDecodeError | OtherException

definition is_lookup_error :: "exn \<Rightarrow> bool" where
  \<comment> \<open>what \<open>except LookupError\<close> catches: the class and its subclasses\<close>
  "is_lookup_error e = (e = LookupError \<or> e = IndexError \<or> e = KeyError)"

datatype 'a attempt = Returns 'a | Raises exn

text \<open>What the process finds around it when \<open>_ensure_nltk_resources\<close> runs: the custom
  word list beside the module, the \<open>nltk\<close> import of lines 5-11, and the outcome of every
  call into NLTK.\<close>

record environment =
  custom_exists :: bool
  custom_lines :: "string list attempt"
  nltk_imported :: bool
  stemmer_first :: "unit attempt"
  stemmer_again :: "unit attempt"
  words_first :: "string list attempt"
  download :: "unit attempt"
  words_again :: "string list attempt"

text \<open>The module globals \<open>_stemmer\<close> (only whether it is set matters) and \<open>_stopwords\<close>.\<close>

record resources =
  stemmer_set :: bool
  stopwords :: "string set option"

definition fresh :: resources where
  "fresh = \<lparr>stemmer_set = False, stopwords = None\<rparr>"

definition custom_words :: "(string \<Rightarrow> string) \<Rightarrow> string list \<Rightarrow> string set" where
  \<comment> \<open>lines 47-51: non-empty, non-comment lines, stripped, accent-stripped, lowercased\<close>
  "custom_words unidecode lines =
     set (map (\<lambda>w. lower (unidecode w))
            (map strip (filter (\<lambda>w. strip w \<noteq> [] \<and> take 1 (strip w) \<noteq> ''#'') lines)))"

definition nltk_words :: "(string \<Rightarrow> string) \<Rightarrow> string list \<Rightarrow> string set" where
  "nltk_words unidecode sw = set (map (\<lambda>w. lower (unidecode w)) sw)"

definition load_stemmer :: "environment \<Rightarrow> resources \<Rightarrow> exn + resources" where
  \<comment> \<open>lines 59-63: the handler repeats the constructor call, whose exception escapes\<close>
  "load_stemmer env r =
     (if stemmer_set r then Inr r
      else case stemmer_first env of
             Returns _ \<Rightarrow> Inr (r\<lparr>stemmer_set := True\<rparr>)
           | Raises _ \<Rightarrow>
               (case stemmer_again env of
                  Returns _ \<Rightarrow> Inr (r\<lparr>stemmer_set := True\<rparr>)
                | Raises e \<Rightarrow> Inl e))"

definition load_stopwords :: "(string \<Rightarrow> string) \<Rightarrow> environment \<Rightarrow> resources \<Rightarrow> exn + resources" where
  \<comment> \<open>lines 64-74: an exception raised inside the \<open>LookupError\<close> handler escapes; any other
     exception of the first call leaves the empty set\<close>
  "load_stopwords unidecode env r =
     (if stopwords r \<noteq> None then Inr r
      else case words_first env of
             Returns sw \<Rightarrow> Inr (r\<lparr>stopwords := Some (nltk_words unidecode sw)\<rparr>)
           | Raises e \<Rightarrow>
               if is_lookup_error e
               then (case download env of
                       Raises e' \<Rightarrow> Inl e'
                     | Returns _ \<Rightarrow>
                         (case words_again env of
                            Returns sw \<Rightarrow> Inr (r\<lparr>stopwords := Some (nltk_words unidecode sw)\<rparr>)
                          | Raises e' \<Rightarrow> Inl e'))
               else Inr (r\<lparr>stopwords := Some {}\<rparr>))"

definition load_nltk :: "(string \<Rightarrow> string) \<Rightarrow> environment \<Rightarrow> resources \<Rightarrow> exn + resources" where
  \<comment> \<open>lines 57-74\<close>
  "load_nltk unidecode env r =
     (if \<not> nltk_imported env then Inl RuntimeError
      else case load_stemmer env r of
             Inl e \<Rightarrow> Inl e
           | Inr r' \<Rightarrow> load_stopwords unidecode env r')"

definition ensure_nltk_resources ::
  "(string \<Rightarrow> string) \<Rightarrow> environment \<Rightarrow> resources \<Rightarrow> exn + resources" where
  "ensure_nltk_resources unidecode env r =
     (if stopwords r = None \<and> custom_exists env
      then case custom_lines env of
             Returns lines \<Rightarrow> Inr (r\<lparr>stopwords := Some (custom_words unidecode lines)\<rparr>)
           | Raises _ \<Rightarrow> load_nltk unidecode env r
      else load_nltk unidecode env r)"

definition remove_stopwords ::
  "(string \<Rightarrow> string) \<Rightarrow> environment \<Rightarrow> resources \<Rightarrow> string list \<Rightarrow> exn + resources \<times> string list" where
  "remove_stopwords unidecode env r tokens =
     (case ensure_nltk_resources unidecode env r of
        Inl e \<Rightarrow> Inl e
      | Inr r' \<Rightarrow>
          (case stopwords r' of
             None \<Rightarrow> Inl TypeError
           | Some sw \<Rightarrow> Inr (r', filter (\<lambda>t. t \<notin> sw) tokens)))"

definition stem_tokens ::
  "(string \<Rightarrow> string) \<Rightarrow> (string \<Rightarrow> string) \<Rightarrow> environment \<Rightarrow> resources \<Rightarrow> string list
     \<Rightarrow> exn + resources \<times> string list" where
  "stem_tokens unidecode snowball env r tokens =
     (case ensure_nltk_resources unidecode env r of
        Inl e \<Rightarrow> Inl e
      | Inr r' \<Rightarrow>
          Inr (r', if stemmer_set r' then map snowball tokens else map simple_stem tokens))"

definition preprocess ::
  "(string \<Rightarrow> string) \<Rightarrow> (string \<Rightarrow> string) \<Rightarrow> environment \<Rightarrow> resources \<Rightarrow> string option
     \<Rightarrow> exn + resources \<times> string list" where
  "preprocess unidecode snowball env r text =
     (let tokens = tokenize unidecode text in
      if tokens = [] then Inr (r, [])
      else case remove_stopwords unidecode env r tokens of
             Inl e \<Rightarrow> Inl e
           | Inr (r', kept) \<Rightarrow> stem_tokens unidecode snowball env r' kept)"

text \<open>The two ways in which a stopword source fails to load, as the claim about
  initialisation speaks of them.\<close>

definition custom_unavailable :: "environment \<Rightarrow> bool" where
  "custom_unavailable env =
     (\<not> custom_exists env \<or> (case custom_lines env of Returns _ \<Rightarrow> False | Raises _ \<Rightarrow> True))"

definition nltk_unavailable :: "environment \<Rightarrow> bool" where
  "nltk_unavailable env =
     (\<not> nltk_imported env \<or>
      (case words_first env of
         Returns _ \<Rightarrow> False
       | Raises e \<Rightarrow>
           if is_lookup_error e
           then (case download env of
                   Raises _ \<Rightarrow> True
                 | Returns _ \<Rightarrow> (case words_again env of Returns _ \<Rightarrow> False | Raises _ \<Rightarrow> True))
           else True))"

definition lookup_failure :: "environment \<Rightarrow> bool" where
  \<comment> \<open>the NLTK failures that the code lets escape: no module, or a lookup error (the
     resource is missing) that the download does not cure\<close>
  "lookup_failure env =
     (\<not> nltk_imported env \<or>
      (case words_first env of
         Returns _ \<Rightarrow> False
       | Raises e \<Rightarrow>
           is_lookup_error e \<and>
           (case download env of
              Raises _ \<Rightarrow> True
            | Returns _ \<Rightarrow> (case words_again env of Returns _ \<Rightarrow> False | Raises _ \<Rightarrow> True))))"

definition broken_env :: environment where
  \<comment> \<open>no custom list; NLTK is installed, but reading its stopword corpus raises an
     exception other than \<open>LookupError\<close> (an unreadable corpus file, say)\<close>
  "broken_env =
     \<lparr>custom_exists = False, custom_lines = Raises FileNotFoundError, nltk_imported = True,
      stemmer_first = Returns (), stemmer_again = Returns (),
      words_first = Raises OtherException, download = Returns (),
      words_again = Raises OtherException\<rparr>"

definition offline_env :: environment where
  \<comment> \<open>no custom list; NLTK is installed without its stopword corpus and the download
     does not bring it\<close>
  "offline_env =
     \<lparr>custom_exists = False, custom_lines = Raises FileNotFoundError, nltk_imported = True,
      stemmer_first = Returns (), stemmer_again = Returns (),
      words_first = Raises LookupError, download = Returns (),
      words_again = Raises LookupError\<rparr>"

section \<open>Python dictionaries\<close>

text \<open>
  A \<open>dict\<close> keeps its keys in insertion order, and the order is visible in what the
  merger writes. A dictionary is therefore an association list; \<open>upsert k new f\<close> is the
  assignment \<open>d[k] = f(d[k])\<close> when \<open>k\<close> is present (the entry stays where it is) and
  \<open>d[k] = new\<close> when it is not (the entry goes to the end).
\<close>

fun upsert :: "'k \<Rightarrow> 'v \<Rightarrow> ('v \<Rightarrow> 'v) \<Rightarrow> ('k \<times> 'v) list \<Rightarrow> ('k \<times> 'v) list" where
  "upsert k new f [] = [(k, new)]"
| "upsert k new f ((k', v) # rest) =
     (if k' = k then (k', f v) # rest else (k', v) # upsert k new f rest)"

section \<open>Block merger (indexes/merge\_blocks.py)\<close>

subsection \<open>Block files\<close>

function str_nat :: "nat \<Rightarrow> string" where
  \<comment> \<open>the decimal digits of a natural number\<close>
  "str_nat n =
     (if n < 10 then [char_of (48 + n)] else str_nat (n div 10) @ [char_of (48 + n mod 10)])"
  by pat_completeness auto
termination
  by (relation "measure id") auto

definition str_int :: "int \<Rightarrow> string" where
  "str_int i = (if i < 0 then CHR ''-'' # str_nat (nat (- i)) else str_nat (nat i))"

text \<open>A document id read from a block is a JSON string or a JSON integer; the merger
  passes it through \<open>str\<close>.\<close>

datatype doc_key = DStr string | DInt int

fun str :: "doc_key \<Rightarrow> string" where
  "str (DStr s) = s"
| "str (DInt i) = str_int i"

text \<open>A parsed block file: term \<open>\<rightarrow>\<close> list of \<open>[doc_id, tf]\<close>, in the order of the file.\<close>

type_synonym block = "(string \<times> (doc_key \<times> int) list) list"

text \<open>\<open>term_doc_tf\<close>: term \<open>\<rightarrow>\<close> document \<open>\<rightarrow>\<close> cumulative frequency.\<close>

type_synonym tf_table = "(string \<times> (string \<times> int) list) list"

definition block_name :: "nat \<Rightarrow> string" where
  \<comment> \<open>the name the block builder gives to block \<open>block_id\<close> (inverted\_index\_spimi.py, line 23)\<close>
  "block_name block_id = ''block_'' @ str_nat block_id @ ''.json''"

definition glob_match :: "string \<Rightarrow> bool" where
  \<comment> \<open>the pattern \<open>block_*.json\<close>\<close>
  "glob_match name =
     (length name \<ge> 11 \<and> take 6 name = ''block_'' \<and> drop (length name - 5) name = ''.json'')"

text \<open>
  The blocks directory is the list of its entries in the order in which the operating
  system lists them, each with what \<open>json.load\<close> makes of it (\<open>None\<close> when it raises).
  All paths share the directory prefix, so sorting the paths is sorting the names.
\<close>

definition block_files :: "(string \<times> 'a) list \<Rightarrow> (string \<times> 'a) list" where
  \<comment> \<open>line 21: \<open>sorted(glob.glob(os.path.join(blocks_dir, "block_*.json")))\<close>\<close>
  "block_files dir = sort_key fst (filter (\<lambda>(name, _). glob_match name) dir)"

subsection \<open>Aggregation (lines 26-35)\<close>

definition add_tf :: "string \<Rightarrow> int \<Rightarrow> (string \<times> int) list \<Rightarrow> (string \<times> int) list" where
  \<comment> \<open>\<open>docs[d] += n\<close> on a \<open>defaultdict(int)\<close>\<close>
  "add_tf d n docs = upsert d (0 + n) (\<lambda>m. m + n) docs"

definition add_posting :: "string \<Rightarrow> string \<Rightarrow> int \<Rightarrow> tf_table \<Rightarrow> tf_table" where
  \<comment> \<open>\<open>term_doc_tf[t][d] += n\<close>\<close>
  "add_posting t d n tab = upsert t (add_tf d n []) (add_tf d n) tab"

definition read_posting ::
  "string \<Rightarrow> doc_key \<times> int \<Rightarrow> tf_table \<times> string list \<Rightarrow> tf_table \<times> string list" where
  \<comment> \<open>lines 34-35; the set \<open>doc_ids\<close> is a list without duplicates\<close>
  "read_posting t p acc =
     (case (p, acc) of
        ((doc_id, tf), (tab, doc_ids)) \<Rightarrow>
          (add_posting t (str doc_id) tf tab, List.insert (str doc_id) doc_ids))"

definition read_block :: "block \<Rightarrow> tf_table \<times> string list \<Rightarrow> tf_table \<times> string list" where
  "read_block b acc = fold (\<lambda>(t, postings) a. fold (read_posting t) postings a) b acc"

definition aggregate :: "block list \<Rightarrow> tf_table \<times> string list" where
  "aggregate blocks = fold read_block blocks ([], [])"

subsection \<open>Weights and output (lines 37-72)\<close>

text \<open>
  Weights are real numbers: the model computes with the exact logarithm and square root
  where the code computes with floats. The external \<open>json.dumps\<close>, followed by the UTF-8
  encoding, is the parameter \<open>dumps\<close>; files are byte strings.
\<close>

record posting_record =
  rec_term :: string
  rec_df :: nat
  rec_postings :: "(string \<times> real) list"

record vocab_entry =
  ve_df :: nat
  ve_offset :: nat
  ve_length :: nat

definition idf :: "nat \<Rightarrow> nat \<Rightarrow> real" where
  \<comment> \<open>line 49; \<open>math.log\<close> cannot raise here, its argument being positive\<close>
  "idf N df = (if df > 0 then log 10 (real N / real df) else 0)"

definition tf_weight :: "int \<Rightarrow> real" where
  \<comment> \<open>line 53\<close>
  "tf_weight tf = (if tf > 0 then 1 + log 10 (real_of_int tf) else 0)"

definition make_record :: "nat \<Rightarrow> string \<Rightarrow> (string \<times> int) list \<Rightarrow> posting_record" where
  \<comment> \<open>lines 47-58\<close>
  "make_record N t docs =
     \<lparr>rec_term = t, rec_df = length docs,
      rec_postings = map (\<lambda>(d, tf). (d, tf_weight tf * idf N (length docs))) docs\<rparr>"

definition add_square :: "string \<times> real \<Rightarrow> (string \<times> real) list \<Rightarrow> (string \<times> real) list" where
  \<comment> \<open>line 56: \<open>doc_sq_sums[doc_id] += weight * weight\<close> on a \<open>defaultdict(float)\<close>\<close>
  "add_square p sq = (case p of (d, w) \<Rightarrow> upsert d (0 + w * w) (\<lambda>s. s + w * w) sq)"

record merge_state =
  invf :: string
  vocab :: "(string \<times> vocab_entry) list"
  doc_sq_sums :: "(string \<times> real) list"

definition docs_of :: "tf_table \<Rightarrow> string \<Rightarrow> (string \<times> int) list" where
  \<comment> \<open>\<open>term_doc_tf[term]\<close>\<close>
  "docs_of tab t = (case map_of tab t of Some ds \<Rightarrow> ds | None \<Rightarrow> [])"

definition encode_line :: "(posting_record \<Rightarrow> string) \<Rightarrow> posting_record \<Rightarrow> string" where
  \<comment> \<open>line 60, encoded: the record and the line terminator\<close>
  "encode_line dumps r = dumps r @ [CHR 0x0A]"

definition write_term ::
  "(posting_record \<Rightarrow> string) \<Rightarrow> nat \<Rightarrow> tf_table \<Rightarrow> string \<Rightarrow> merge_state \<Rightarrow> merge_state" where
  \<comment> \<open>one round of the loop of lines 46-63; \<open>invf.tell()\<close> is the number of bytes written\<close>
  "write_term dumps N tab t st =
     (let record = make_record N t (docs_of tab t);
          offset = length (invf st);
          line = encode_line dumps record;
          entry = \<lparr>ve_df = rec_df record, ve_offset = offset, ve_length = length line\<rparr>
      in \<lparr>invf = invf st @ line,
          vocab = upsert t entry (\<lambda>_. entry) (vocab st),
          doc_sq_sums = fold add_square (rec_postings record) (doc_sq_sums st)\<rparr>)"

definition write_terms ::
  "(posting_record \<Rightarrow> string) \<Rightarrow> nat \<Rightarrow> tf_table \<Rightarrow> merge_state" where
  "write_terms dumps N tab =
     fold (write_term dumps N tab) (sort (map fst tab))
       \<lparr>invf = [], vocab = [], doc_sq_sums = []\<rparr>"

record merged =
  inverted :: string
  out_vocab :: "(string \<times> vocab_entry) list"
  doc_norms :: "(string \<times> real) list"
  out_N :: nat

definition merge_blocks ::
  "(posting_record \<Rightarrow> string) \<Rightarrow> (string \<times> block option) list \<Rightarrow> exn + merged" where
  "merge_blocks dumps dir =
     (let files = block_files dir in
      if files = [] then Inl FileNotFoundError
      else case those (map snd files) of
             None \<Rightarrow> Inl JSONDecodeError
           | Some blocks \<Rightarrow>
               (case aggregate blocks of
                  (tab, doc_ids) \<Rightarrow>
                    let N = length doc_ids in
                    if N = 0 then Inl RuntimeError
                    else let st = write_terms dumps N tab
                         in Inr \<lparr>inverted = invf st, out_vocab = vocab st,
                                 doc_norms = map (\<lambda>(d, sq). (d, sqrt sq)) (doc_sq_sums st),
                                 out_N = N\<rparr>))"

subsection \<open>What the merger read and wrote, for the statements below\<close>

definition occurrences :: "block list \<Rightarrow> (string \<times> string \<times> int) list" where
  \<comment> \<open>every (term, document, frequency) of the blocks, in the order the merger meets them\<close>
  "occurrences blocks =
     concat (map (\<lambda>b. concat (map (\<lambda>(t, ps). map (\<lambda>(d, tf). (t, str d, tf)) ps) b)) blocks)"

definition total_tf :: "block list \<Rightarrow> string \<Rightarrow> string \<Rightarrow> int" where
  "total_tf blocks t d =
     sum_list (map (\<lambda>(t', d', tf). tf)
       (filter (\<lambda>(t', d', tf). t' = t \<and> d' = d) (occurrences blocks)))"

fun first_seen :: "'a list \<Rightarrow> 'a list" where
  \<comment> \<open>every element once, at the place of its first occurrence\<close>
  "first_seen [] = []"
| "first_seen (x # xs) = x # removeAll x (first_seen xs)"

definition seen_after :: "'a list \<Rightarrow> 'a list \<Rightarrow> 'a list" where
  \<comment> \<open>the keys of a dictionary that held \<open>acc\<close> after the keys \<open>xs\<close> were assigned in turn\<close>
  "seen_after acc xs = acc @ filter (\<lambda>y. y \<notin> set acc) (first_seen xs)"

definition docs_met :: "block list \<Rightarrow> string \<Rightarrow> string list" where
  \<comment> \<open>the documents of a term, each once, in the order of first encounter\<close>
  "docs_met blocks t =
     first_seen (map (\<lambda>(t', d, tf). d) (filter (\<lambda>(t', d, tf). t' = t) (occurrences blocks)))"

definition meet ::
  "string \<times> string \<times> int \<Rightarrow> tf_table \<times> string list \<Rightarrow> tf_table \<times> string list" where
  \<comment> \<open>lines 34-35 on one occurrence\<close>
  "meet occ acc =
     (case (occ, acc) of
        ((t, d, n), (tab, doc_ids)) \<Rightarrow> (add_posting t d n tab, List.insert d doc_ids))"

definition term_records :: "nat \<Rightarrow> tf_table \<Rightarrow> posting_record list" where
  \<comment> \<open>the records of the loop of lines 46-63, in the order it builds them\<close>
  "term_records N tab = map (\<lambda>t. make_record N t (docs_of tab t)) (sort (map fst tab))"

section \<open>Query engine (indexes/query\_engine.py)\<close>

text \<open>
  The engine holds what it loaded from the three files. \<open>json.loads\<close> after the UTF-8
  decoding is the parameter \<open>loads\<close>: \<open>None\<close> when either raises, otherwise the parsed
  value, of which the engine only uses an object's \<open>postings\<close>.
\<close>

datatype json_doc =
  JObject (obj_term: "string option") (obj_df: "nat option")
    (obj_postings: "(string \<times> real) list option")
  | JOther

definition as_json :: "posting_record \<Rightarrow> json_doc" where
  "as_json r = JObject (Some (rec_term r)) (Some (rec_df r)) (Some (rec_postings r))"

record index =
  ix_inverted :: string
  ix_vocab :: "(string \<times> vocab_entry) list"
  ix_doc_norms :: "(string \<times> real) list"

definition index_of :: "merged \<Rightarrow> index" where
  \<comment> \<open>the engine constructed on the output of a merge\<close>
  "index_of out =
     \<lparr>ix_inverted = inverted out, ix_vocab = out_vocab out, ix_doc_norms = doc_norms out\<rparr>"

definition read_postings ::
  "(string \<Rightarrow> json_doc option) \<Rightarrow> index \<Rightarrow> string \<Rightarrow> exn + (string \<times> real) list \<times> nat" where
  \<comment> \<open>\<open>record.get\<close> on a parsed value that is not an object raises \<open>AttributeError\<close>\<close>
  "read_postings loads ix t =
     (case map_of (ix_vocab ix) t of
        None \<Rightarrow> Inr ([], 0)
      | Some meta \<Rightarrow>
          (let data = take (ve_length meta) (drop (ve_offset meta) (ix_inverted ix)) in
           case loads data of
             None \<Rightarrow> Inr ([], ve_length meta)
           | Some JOther \<Rightarrow> Inl AttributeError
           | Some (JObject _ _ ps) \<Rightarrow>
               Inr (case ps of None \<Rightarrow> [] | Some postings \<Rightarrow> postings, ve_length meta)))"

definition py_log10 :: "real \<Rightarrow> exn + real" where
  \<comment> \<open>\<open>math.log(x, 10)\<close>: a domain error outside the positive numbers\<close>
  "py_log10 x = (if x \<le> 0 then Inl ValueError else Inr (log 10 x))"

definition query_idf :: "index \<Rightarrow> nat \<Rightarrow> exn + real" where
  \<comment> \<open>line 62\<close>
  "query_idf ix df =
     (if df > 0 then py_log10 (real (length (ix_doc_norms ix)) / real df) else Inr 0)"

record scoring =
  accum :: "(string \<times> real) list"
  q_sq_sum :: real
  bytes :: nat

definition add_dot :: "real \<Rightarrow> string \<times> real \<Rightarrow> (string \<times> real) list \<Rightarrow> (string \<times> real) list" where
  \<comment> \<open>line 71\<close>
  "add_dot q_w p acc =
     (case p of (doc_id, doc_w) \<Rightarrow> upsert doc_id (0 + q_w * doc_w) (\<lambda>a. a + q_w * doc_w) acc)"

fun score_terms ::
  "(string \<Rightarrow> json_doc option) \<Rightarrow> index \<Rightarrow> (string \<times> nat) list \<Rightarrow> scoring \<Rightarrow> exn + scoring" where
  \<comment> \<open>the loop of lines 57-71 over the items of \<open>q_tf\<close>\<close>
  "score_terms loads ix [] s = Inr s"
| "score_terms loads ix ((t, tf) # rest) s =
     (case map_of (ix_vocab ix) t of
        None \<Rightarrow> score_terms loads ix rest s
      | Some meta \<Rightarrow>
          (case query_idf ix (ve_df meta) of
             Inl e \<Rightarrow> Inl e
           | Inr idf_t \<Rightarrow>
               (let q_tf_weight = (if tf > 0 then 1 + log 10 (real tf) else 0);
                    q_w = q_tf_weight * idf_t
                in case read_postings loads ix t of
                     Inl e \<Rightarrow> Inl e
                   | Inr (postings, br) \<Rightarrow>
                       score_terms loads ix rest
                         \<lparr>accum = fold (add_dot q_w) postings (accum s),
                          q_sq_sum = q_sq_sum s + q_w * q_w,
                          bytes = bytes s + br\<rparr>)))"

definition doc_norm :: "index \<Rightarrow> string \<Rightarrow> real" where
  \<comment> \<open>line 78: \<open>float(self.doc_norms.get(doc_id, 0.0))\<close>\<close>
  "doc_norm ix d = (case map_of (ix_doc_norms ix) d of None \<Rightarrow> 0 | Some n \<Rightarrow> n)"

text \<open>
  The heap of \<open>heapq\<close> holds pairs (score, doc\_id), compared as tuples. It is modelled by
  its content in ascending order, which is one of the arrangements a binary heap allows:
  the smallest pair is at the front. The arrangement only decides the order of equal
  scores in the result.
\<close>

definition heappush :: "(real \<times> string) list \<Rightarrow> real \<times> string \<Rightarrow> (real \<times> string) list" where
  "heappush heap x = insort x heap"

definition heapreplace :: "(real \<times> string) list \<Rightarrow> real \<times> string \<Rightarrow> (real \<times> string) list" where
  "heapreplace heap x = insort x (tl heap)"

fun select_top ::
  "index \<Rightarrow> int \<Rightarrow> real \<Rightarrow> (string \<times> real) list \<Rightarrow> (real \<times> string) list
     \<Rightarrow> exn + (real \<times> string) list" where
  \<comment> \<open>the loop of lines 77-86; \<open>heap[0]\<close> on an empty heap raises \<open>IndexError\<close>\<close>
  "select_top ix k q_norm [] heap = Inr heap"
| "select_top ix k q_norm ((doc_id, dot) # rest) heap =
     (if doc_norm ix doc_id = 0 then select_top ix k q_norm rest heap
      else let score = dot / (q_norm * doc_norm ix doc_id) in
        if int (length heap) < k then select_top ix k q_norm rest (heappush heap (score, doc_id))
        else case heap of
               [] \<Rightarrow> Inl IndexError
             | least # _ \<Rightarrow>
                 if score > fst least
                 then select_top ix k q_norm rest (heapreplace heap (score, doc_id))
                 else select_top ix k q_norm rest heap)"

definition sorted_desc :: "(string \<times> real) list \<Rightarrow> (string \<times> real) list" where
  \<comment> \<open>\<open>sorted(..., key=lambda x: x[1], reverse=True)\<close>: stable, descending\<close>
  "sorted_desc xs = rev (sort_key snd (rev xs))"

record query_result =
  results :: "(string \<times> real) list"
  bytes_read :: nat

definition count_tokens :: "string list \<Rightarrow> (string \<times> nat) list" where
  \<comment> \<open>lines 48-50\<close>
  "count_tokens tokens = fold (\<lambda>t q_tf. upsert t (0 + 1) (\<lambda>c. c + 1) q_tf) tokens []"

definition score_tokens ::
  "(string \<Rightarrow> json_doc option) \<Rightarrow> index \<Rightarrow> string list \<Rightarrow> int \<Rightarrow> exn + query_result" where
  \<comment> \<open>lines 47-95; the elapsed time is not part of the model\<close>
  "score_tokens loads ix tokens k =
     (case score_terms loads ix (count_tokens tokens) \<lparr>accum = [], q_sq_sum = 0, bytes = 0\<rparr> of
        Inl e \<Rightarrow> Inl e
      | Inr s \<Rightarrow>
          (let q_norm = (if q_sq_sum s > 0 then sqrt (q_sq_sum s) else 1) in
           case select_top ix k q_norm (accum s) [] of
             Inl e \<Rightarrow> Inl e
           | Inr heap \<Rightarrow>
               Inr \<lparr>results = sorted_desc (sorted_desc (map (\<lambda>(score, doc_id). (doc_id, score)) heap)),
                    bytes_read = bytes s\<rparr>))"

definition query ::
  "(string \<Rightarrow> string) \<Rightarrow> (string \<Rightarrow> string) \<Rightarrow> environment \<Rightarrow> resources
     \<Rightarrow> (string \<Rightarrow> json_doc option) \<Rightarrow> index \<Rightarrow> string option \<Rightarrow> int
     \<Rightarrow> exn + resources \<times> query_result" where
  "query unidecode snowball env r loads ix qtext k =
     (case preprocess unidecode snowball env r qtext of
        Inl e \<Rightarrow> Inl e
      | Inr (r', tokens) \<Rightarrow>
          if tokens = [] then Inr (r', \<lparr>results = [], bytes_read = 0\<rparr>)
          else (case score_tokens loads ix tokens k of
                  Inl e \<Rightarrow> Inl e
                | Inr res \<Rightarrow> Inr (r', res)))"

subsection \<open>The candidates of a query, for the statements below\<close>

definition postings_of :: "(string \<Rightarrow> json_doc option) \<Rightarrow> index \<Rightarrow> string \<Rightarrow> (string \<times> real) list" where
  "postings_of loads ix t = (case read_postings loads ix t of Inr (ps, _) \<Rightarrow> ps | Inl _ \<Rightarrow> [])"

definition candidates :: "(string \<Rightarrow> json_doc option) \<Rightarrow> index \<Rightarrow> string list \<Rightarrow> string set" where
  \<comment> \<open>the documents in the postings of the query's terms\<close>
  "candidates loads ix tokens = (\<Union>t\<in>set tokens. fst ` set (postings_of loads ix t))"

definition touched_bytes :: "index \<Rightarrow> string list \<Rightarrow> nat" where
  \<comment> \<open>the \<open>length\<close> fields of the dictionary entries of the distinct tokens in the vocabulary\<close>
  "touched_bytes ix tokens =
     sum_list (map (\<lambda>t. case map_of (ix_vocab ix) t of None \<Rightarrow> 0 | Some meta \<Rightarrow> ve_length meta)
       (remdups tokens))"

definition merged_records ::
  "(posting_record \<Rightarrow> string) \<Rightarrow> (string \<times> block option) list \<Rightarrow> posting_record list" where
  \<comment> \<open>the records that \<open>merge_blocks\<close> builds from a directory, in the order of writing\<close>
  "merged_records dumps dir =
     (case those (map snd (block_files dir)) of
        None \<Rightarrow> []
      | Some blocks \<Rightarrow>
          (case aggregate blocks of (tab, doc_ids) \<Rightarrow> term_records (length doc_ids) tab))"

definition table_loads ::
  "(posting_record \<Rightarrow> string) \<Rightarrow> posting_record list \<Rightarrow> string \<Rightarrow> json_doc option" where
  \<comment> \<open>a reader for the examples: it knows the lines of the records \<open>rs\<close> and nothing else\<close>
  "table_loads dumps rs data = map_option as_json (find (\<lambda>r. encode_line dumps r = data) rs)"

definition entry_length :: "index \<Rightarrow> string \<Rightarrow> nat" where
  \<comment> \<open>the \<open>length\<close> field of the dictionary entry of a term, 0 for a term without entry\<close>
  "entry_length ix t = (case map_of (ix_vocab ix) t of None \<Rightarrow> 0 | Some meta \<Rightarrow> ve_length meta)"

definition eligible :: "index \<Rightarrow> (string \<times> real) list \<Rightarrow> (string \<times> real) list" where
  \<comment> \<open>the accumulated documents that line 79 does not skip\<close>
  "eligible ix items = filter (\<lambda>(d, dot). doc_norm ix d \<noteq> 0) items"

definition in_vocab :: "index \<Rightarrow> string \<Rightarrow> bool" where
  \<comment> \<open>the term has an entry in the loaded dictionary\<close>
  "in_vocab ix t = (map_of (ix_vocab ix) t \<noteq> None)"

section \<open>Sample data\<close>

text \<open>
  The corpus of three documents \<open>el gato come pescado\<close>, \<open>el perro come carne\<close> and
  \<open>el gato duerme\<close>, built with two documents per block, beside a file that is not a
  block. In the examples a record is written as its term and its document ids.
\<close>

definition sample_dumps :: "posting_record \<Rightarrow> string" where
  "sample_dumps r = rec_term r @ '':'' @ concat (map (\<lambda>(d, w). d @ '','') (rec_postings r))"

definition sample_dir :: "(string \<times> block option) list" where
  "sample_dir =
     [(block_name 1, Some [(''gato'', [(DStr ''3'', 1)]), (''duerm'', [(DStr ''3'', 1)])]),
      (''doc_stats.json'', None),
      (block_name 0,
       Some [(''gato'', [(DStr ''1'', 1)]), (''com'', [(DStr ''1'', 1), (DStr ''2'', 1)]),
             (''pesc'', [(DStr ''1'', 1)]), (''perr'', [(DStr ''2'', 1)]),
             (''carn'', [(DStr ''2'', 1)])])]"

definition sample_blocks :: "block list" where
  "sample_blocks =
     [[(''gato'', [(DStr ''1'', 1)]), (''com'', [(DStr ''1'', 1), (DStr ''2'', 1)]),
       (''pesc'', [(DStr ''1'', 1)]), (''perr'', [(DStr ''2'', 1)]),
       (''carn'', [(DStr ''2'', 1)])],
      [(''gato'', [(DStr ''3'', 1)]), (''duerm'', [(DStr ''3'', 1)])]]"

definition numbered_dir :: "(string \<times> block option) list" where
  "numbered_dir =
     map (\<lambda>i. (block_name i, Some [(''a'', [(DStr (str_nat i), 1)])])) [0..<11]"

definition sample_env :: environment where
  "sample_env =
     \<lparr>custom_exists = False, custom_lines = Raises FileNotFoundError, nltk_imported = True,
      stemmer_first = Returns (), stemmer_again = Returns (),
      words_first = Returns [''el'', ''la'', ''de''], download = Returns (),
      words_again = Returns [''el'', ''la'', ''de'']\<rparr>"

definition sample_stem :: "string \<Rightarrow> string" where
  "sample_stem w = (if w = ''come'' then ''com'' else w)"

definition sample_loads :: "string \<Rightarrow> json_doc option" where
  "sample_loads = table_loads sample_dumps (merged_records sample_dumps sample_dir)"

definition zero_dir :: "(string \<times> block option) list" where
  "zero_dir =
     [(block_name 0, Some [(''gato'', [(DStr ''1'', 1), (DStr ''2'', 1)]), (''perro'', [(DStr ''1'', 1)])])]"

definition zero_loads :: "string \<Rightarrow> json_doc option" where
  "zero_loads = table_loads sample_dumps (merged_records sample_dumps zero_dir)"

definition sample_resources :: resources where
  "sample_resources = \<lparr>stemmer_set = True, stopwords = Some {''el'', ''la'', ''de''}\<rparr>"

section \<open>Properties of the text pipeline\<close>

lemma space_is_space: "is_space (CHR '' '')"
  by (simp add: is_space_def)

lemma alnum_not_space: "is_alnum_lower c \<Longrightarrow> \<not> is_space c"
  by (auto simp: is_alnum_lower_def is_space_def)

lemma plain_space_iff: "plain c \<Longrightarrow> is_space c \<longleftrightarrow> c = CHR '' ''"
  using alnum_not_space space_is_space by (auto simp: plain_def)

lemma lower_char_plain: "plain c \<Longrightarrow> lower_char c = c"
  by (auto simp: plain_def is_alnum_lower_def lower_char_def Let_def)

lemma lower_plain: "\<forall>c\<in>set s. plain c \<Longrightarrow> lower s = s"
  by (simp add: lower_def lower_char_plain map_idI)

lemma blank_other_plain: "\<forall>c\<in>set s. plain c \<Longrightarrow> blank_other s = s"
  unfolding blank_other_def by (rule map_idI) (auto simp: plain_def space_is_space)

lemma collapse_ws_plain_set: "\<forall>c\<in>set s. is_alnum_lower c \<or> is_space c \<Longrightarrow> \<forall>c\<in>set (collapse_ws s). plain c"
proof (induction s rule: collapse_ws.induct)
  case 1
  then show ?case by simp
next
  case (2 c cs)
  show ?case
  proof (cases "is_space c")
    case True
    have "\<forall>c\<in>set (dropWhile is_space cs). is_alnum_lower c \<or> is_space c"
      using 2(3) by (auto dest: set_dropWhileD)
    with 2(1)[OF True] True show ?thesis by (simp add: plain_def)
  next
    case False
    with 2(2)[OF False] 2(3) show ?thesis by (auto simp: plain_def)
  qed
qed

lemma blank_other_set: "\<forall>c\<in>set (blank_other s). is_alnum_lower c \<or> is_space c"
  by (auto simp: blank_other_def space_is_space)

lemma collapse_ws_hd: "collapse_ws s \<noteq> [] \<Longrightarrow> hd (collapse_ws s) = CHR '' '' \<Longrightarrow> s \<noteq> [] \<and> is_space (hd s)"
  by (cases s) (auto simp: space_is_space split: if_splits)

lemma collapse_ws_spaced: "spaced (collapse_ws s)"
proof (induction s rule: collapse_ws.induct)
  case 1
  then show ?case by simp
next
  case (2 c cs)
  show ?case
  proof (cases "is_space c")
    case True
    let ?r = "collapse_ws (dropWhile is_space cs)"
    have sp: "spaced ?r" using 2(1)[OF True] .
    show ?thesis
    proof (cases ?r)
      case Nil
      with True show ?thesis by simp
    next
      case (Cons d ds)
      have "d \<noteq> CHR '' ''"
      proof
        assume "d = CHR '' ''"
        with Cons have "dropWhile is_space cs \<noteq> [] \<and> is_space (hd (dropWhile is_space cs))"
          using collapse_ws_hd[of "dropWhile is_space cs"] by simp
        then show False using hd_dropWhile[of is_space cs] by blast
      qed
      with Cons sp True show ?thesis by simp
    qed
  next
    case False
    let ?r = "collapse_ws cs"
    have sp: "spaced ?r" using 2(2)[OF False] .
    have "c \<noteq> CHR '' ''" using False space_is_space by auto
    with sp False show ?thesis by (cases ?r) simp_all
  qed
qed

lemma collapse_ws_fixed: "\<forall>c\<in>set s. plain c \<Longrightarrow> spaced s \<Longrightarrow> collapse_ws s = s"
proof (induction s rule: spaced.induct)
  case 1
  then show ?case by simp
next
  case (2 c)
  then show ?case by (auto simp: plain_space_iff)
next
  case (3 c d cs)
  have pc: "plain c" and pd: "plain d" using 3(2) by simp_all
  have ih: "collapse_ws (d # cs) = d # cs" using 3 by simp
  show ?case
  proof (cases "is_space c")
    case True
    then have "c = CHR '' ''" using pc plain_space_iff by blast
    then have "d \<noteq> CHR '' ''" using 3(3) by simp
    then have "\<not> is_space d" using pd plain_space_iff by blast
    then have "dropWhile is_space (d # cs) = d # cs" by simp
    with True ih \<open>c = CHR '' ''\<close> show ?thesis by simp
  next
    case False
    with ih show ?thesis by simp
  qed
qed

lemma spaced_tl: "spaced (c # cs) \<Longrightarrow> spaced cs"
  by (cases cs) simp_all

lemma spaced_dropWhile: "spaced s \<Longrightarrow> spaced (dropWhile P s)"
  by (induction s) (auto dest: spaced_tl)

lemma rstrip_hd: "rstrip s \<noteq> [] \<Longrightarrow> hd (rstrip s) = hd s"
  by (cases s) (auto split: if_splits)

lemma spaced_rstrip: "spaced s \<Longrightarrow> spaced (rstrip s)"
proof (induction s)
  case Nil
  then show ?case by simp
next
  case (Cons c cs)
  have sp: "spaced (rstrip cs)" using Cons spaced_tl by blast
  show ?case
  proof (cases "rstrip cs")
    case Nil
    then show ?thesis by simp
  next
    case (Cons d ds)
    then have "hd cs = d" using rstrip_hd[of cs] by simp
    moreover have "cs \<noteq> []" using Cons by auto
    ultimately obtain es where "cs = d # es" by (cases cs) auto
    with Cons.prems have "c = CHR '' '' \<longrightarrow> d \<noteq> CHR '' ''" by simp
    with Cons sp show ?thesis by simp
  qed
qed

lemma set_rstrip: "set (rstrip s) \<subseteq> set s"
  by (induction s) auto

lemma rstrip_idem: "rstrip (rstrip s) = rstrip s"
  by (induction s) auto

lemma rstrip_keeps_head: "s \<noteq> [] \<Longrightarrow> \<not> is_space (hd s) \<Longrightarrow> rstrip s \<noteq> [] \<and> hd (rstrip s) = hd s"
  by (cases s) auto

lemma strip_fixed: "strip (strip s) = strip s"
proof (cases "dropWhile is_space s")
  case Nil
  show ?thesis unfolding strip_def Nil by simp
next
  case (Cons d ds)
  then have "\<not> is_space d" using hd_dropWhile[of is_space s] by auto
  with Cons have "rstrip (d # ds) \<noteq> [] \<and> hd (rstrip (d # ds)) = d"
    using rstrip_keeps_head[of "d # ds"] by simp
  then obtain es where es: "rstrip (d # ds) = d # es" by (cases "rstrip (d # ds)") auto
  with \<open>\<not> is_space d\<close> have "dropWhile is_space (rstrip (d # ds)) = rstrip (d # ds)" by simp
  with Cons show ?thesis by (simp add: strip_def rstrip_idem del: rstrip.simps)
qed

lemma set_strip: "set (strip s) \<subseteq> set s"
  unfolding strip_def using set_rstrip set_dropWhileD by fastforce

lemma spaced_strip: "spaced s \<Longrightarrow> spaced (strip s)"
  by (simp add: strip_def spaced_rstrip spaced_dropWhile)

lemma normalize_text_plain: "\<forall>c\<in>set (normalize_text u t). plain c"
proof (cases t)
  case None
  then show ?thesis by (simp add: normalize_text_def)
next
  case (Some s)
  have "\<forall>c\<in>set (collapse_ws (blank_other (lower (u s)))). plain c"
    using collapse_ws_plain_set blank_other_set by blast
  with Some show ?thesis using set_strip by (fastforce simp: normalize_text_def)
qed

lemma normalize_text_spaced: "spaced (normalize_text u t)"
  by (cases t) (simp_all add: normalize_text_def spaced_strip collapse_ws_spaced)

lemma normalize_text_stripped: "strip (normalize_text u t) = normalize_text u t"
  by (cases t) (simp_all add: normalize_text_def strip_fixed, simp add: strip_def)

text \<open>
  Claim C10. \<open>normalize_text\<close> is idempotent: normalising its own output changes nothing,
  because the output consists of lowercase ASCII letters, digits and single interior
  spaces only, with no whitespace at either end. \<open>unidecode\<close> is the library function or
  the fallback of the module; all that is asked of it is that it leaves such plain text
  alone.
\<close>

theorem normalize_text_idempotent:
  assumes "\<forall>s. (\<forall>c\<in>set s. plain c) \<longrightarrow> unidecode s = s"
  shows "normalize_text unidecode (Some (normalize_text unidecode t)) = normalize_text unidecode t
    \<and> (\<forall>c\<in>set (normalize_text unidecode t). plain c)
    \<and> spaced (normalize_text unidecode t)
    \<and> strip (normalize_text unidecode t) = normalize_text unidecode t"
proof -
  let ?o = "normalize_text unidecode t"
  have p: "\<forall>c\<in>set ?o. plain c" by (rule normalize_text_plain)
  have "unidecode ?o = ?o" using assms p by blast
  moreover have "lower ?o = ?o" using p by (rule lower_plain)
  moreover have "blank_other ?o = ?o" using p by (rule blank_other_plain)
  moreover have "collapse_ws ?o = ?o" using p normalize_text_spaced by (rule collapse_ws_fixed)
  moreover have s: "strip ?o = ?o" by (rule normalize_text_stripped)
  ultimately have "normalize_text unidecode (Some ?o) = ?o" by (simp add: normalize_text_def)
  with p s show ?thesis using normalize_text_spaced by blast
qed

theorem normalize_text_idempotent_witness:
  "normalize_text (\<lambda>s. s) (Some (''  Hola,   Mundo!! 42 '')) = ''hola mundo 42''
   \<and> normalize_text (\<lambda>s. s) (Some (normalize_text (\<lambda>s. s) (Some (''  Hola,   Mundo!! 42 ''))))
       = ''hola mundo 42''"
proof -
  have h: "\<forall>s. (\<forall>c\<in>set s. plain c) \<longrightarrow> (\<lambda>s. s) s = (s :: string)" by simp
  have e: "normalize_text (\<lambda>s. s) (Some (''  Hola,   Mundo!! 42 '')) = ''hola mundo 42''"
    by code_simp
  from normalize_text_idempotent [OF h, of "Some (''  Hola,   Mundo!! 42 '')"] e
  show ?thesis by simp
qed

text \<open>
  Claim C1, as amended. When the custom word list cannot be loaded and the NLTK stopwords
  cannot either, because the module is missing or because its stopword resource is still
  not found after the download attempt, the first operation that initialises the
  resources (\<open>remove_stopwords\<close>, \<open>stem_tokens\<close>, or \<open>preprocess\<close> on a text with at least
  one token) fails with an error.
\<close>

theorem initialisation_fails_on_lookup_failure:
  assumes "custom_unavailable env" and "lookup_failure env"
  shows "isl (ensure_nltk_resources unidecode env fresh)
    \<and> isl (remove_stopwords unidecode env fresh tokens)
    \<and> isl (stem_tokens unidecode snowball env fresh tokens)
    \<and> (tokenize unidecode text \<noteq> [] \<longrightarrow> isl (preprocess unidecode snowball env fresh text))"
proof -
  have "isl (load_nltk unidecode env fresh)"
  proof (cases "nltk_imported env")
    case False
    then show ?thesis by (simp add: load_nltk_def)
  next
    case True
    with assms(2) obtain e where w: "words_first env = Raises e" and l: "is_lookup_error e"
      and d: "(case download env of Raises _ \<Rightarrow> True
                | Returns _ \<Rightarrow> (case words_again env of Returns _ \<Rightarrow> False | Raises _ \<Rightarrow> True))"
      by (auto simp: lookup_failure_def split: attempt.splits)
    have "isl (load_stopwords unidecode env r)" if "stopwords r = None" for r
      using that w l d by (auto simp: load_stopwords_def split: attempt.splits)
    moreover have "stopwords r = None" if "load_stemmer env fresh = Inr r" for r
      using that by (auto simp: load_stemmer_def fresh_def split: attempt.splits if_splits)
    ultimately show ?thesis
      using True by (auto simp: load_nltk_def split: sum.splits)
  qed
  then have e: "isl (ensure_nltk_resources unidecode env fresh)"
    using assms(1)
    by (auto simp: ensure_nltk_resources_def custom_unavailable_def split: attempt.splits)
  then show ?thesis
    by (auto simp: remove_stopwords_def stem_tokens_def preprocess_def Let_def isl_def)
qed

theorem initialisation_fails_on_lookup_failure_witness:
  "custom_unavailable offline_env \<and> lookup_failure offline_env
   \<and> tokenize (\<lambda>s. s) (Some ''el gato'') \<noteq> []
   \<and> remove_stopwords (\<lambda>s. s) offline_env fresh [''el'', ''gato''] = Inl LookupError
   \<and> stem_tokens (\<lambda>s. s) (\<lambda>s. s) offline_env fresh [''el'', ''gato''] = Inl LookupError
   \<and> preprocess (\<lambda>s. s) (\<lambda>s. s) offline_env fresh (Some ''el gato'') = Inl LookupError"
proof -
  have c: "custom_unavailable offline_env" by (simp add: custom_unavailable_def offline_env_def)
  have l: "lookup_failure offline_env" by (simp add: lookup_failure_def offline_env_def is_lookup_error_def)
  have t: "tokenize (\<lambda>s. s) (Some ''el gato'') = [''el'', ''gato'']" by code_simp
  have r: "remove_stopwords (\<lambda>s. s) offline_env fresh [''el'', ''gato''] = Inl LookupError"
    by (simp add: remove_stopwords_def ensure_nltk_resources_def load_nltk_def load_stemmer_def
        load_stopwords_def fresh_def offline_env_def is_lookup_error_def)
  have s: "stem_tokens (\<lambda>s. s) (\<lambda>s. s) offline_env fresh [''el'', ''gato''] = Inl LookupError"
    by (simp add: stem_tokens_def ensure_nltk_resources_def load_nltk_def load_stemmer_def
        load_stopwords_def fresh_def offline_env_def is_lookup_error_def)
  have p: "preprocess (\<lambda>s. s) (\<lambda>s. s) offline_env fresh (Some ''el gato'') = Inl LookupError"
    by (simp add: preprocess_def t r)
  from initialisation_fails_on_lookup_failure [OF c l, of "\<lambda>s. s" "[''el'', ''gato'']" "\<lambda>s. s" "Some ''el gato''"]
    c l t r s p
  show ?thesis by simp
qed

text \<open>
  Claim C1, as stated, fails: with no custom list and an NLTK whose stopword corpus raises
  an exception other than \<open>LookupError\<close>, neither source can be loaded, and yet
  \<open>remove_stopwords\<close> returns, with an empty stopword set that filters nothing.
\<close>

theorem empty_stopword_fallback:
  "custom_unavailable broken_env \<and> nltk_unavailable broken_env
   \<and> remove_stopwords (\<lambda>s. s) broken_env fresh [''el'', ''gato'']
       = Inr (\<lparr>stemmer_set = True, stopwords = Some {}\<rparr>, [''el'', ''gato''])"
  by (simp add: custom_unavailable_def nltk_unavailable_def remove_stopwords_def
      ensure_nltk_resources_def load_nltk_def load_stemmer_def load_stopwords_def fresh_def
      broken_env_def is_lookup_error_def)

section \<open>Properties of the block merger\<close>

lemma upsert_keys:
  "map fst (upsert k new f al) = (if k \<in> fst ` set al then map fst al else map fst al @ [k])"
  by (induction al) force+

lemma upsert_distinct: "distinct (map fst al) \<Longrightarrow> distinct (map fst (upsert k new f al))"
  by (simp add: upsert_keys)

lemma upsert_key_set: "fst ` set (upsert k new f al) = insert k (fst ` set al)"
proof -
  have "set (map fst (upsert k new f al)) = insert k (set (map fst al))"
    unfolding upsert_keys by auto
  then show ?thesis by simp
qed

lemma map_of_upsert:
  "map_of (upsert k new f al) =
     (map_of al)(k \<mapsto> (case map_of al k of None \<Rightarrow> new | Some v \<Rightarrow> f v))"
  by (induction al) (auto simp: fun_eq_iff)

lemma length_upsert:
  "length (upsert k new f al) = (if k \<in> fst ` set al then length al else Suc (length al))"
  using arg_cong [OF upsert_keys, of length k new f al] by (simp split: if_splits)

lemma meet_pair:
  "meet (t, d, n) (tab, ids) = (add_posting t d n tab, List.insert d ids)"
  by (simp add: meet_def)

lemma read_block_meet:
  "read_block b acc =
     fold meet (concat (map (\<lambda>(t, ps). map (\<lambda>(d, tf). (t, str d, tf)) ps) b)) acc"
proof -
  have inner: "fold meet (map (\<lambda>(d, tf). (t, str d, tf)) ps) a = fold (read_posting t) ps a"
    for t ps a
    by (induction ps arbitrary: a) (auto simp: meet_def read_posting_def split: prod.splits)
  show ?thesis
    unfolding read_block_def
    by (induction b arbitrary: acc) (auto simp: inner split: prod.splits)
qed

lemma aggregate_meet: "aggregate blocks = fold meet (occurrences blocks) ([], [])"
proof -
  have "fold read_block blocks acc = fold meet (occurrences blocks) acc" for acc
    by (induction blocks arbitrary: acc) (simp_all add: occurrences_def read_block_meet)
  then show ?thesis by (simp add: aggregate_def)
qed

lemma docs_of_add_posting:
  "docs_of (add_posting t d n tab) t' =
     (if t' = t then add_tf d n (docs_of tab t) else docs_of tab t')"
  by (simp add: docs_of_def add_posting_def map_of_upsert split: option.splits)

lemma keys_add_tf:
  "map fst (add_tf d n ds) = (if d \<in> set (map fst ds) then map fst ds else map fst ds @ [d])"
  by (simp add: add_tf_def upsert_keys)

lemma map_of_add_tf:
  "map_of (add_tf d n ds) d' =
     (if d' = d then Some ((case map_of ds d of None \<Rightarrow> 0 | Some m \<Rightarrow> m) + n) else map_of ds d')"
  by (simp add: add_tf_def map_of_upsert split: option.splits)

text \<open>What the table holds after the merger has met a list of occurrences.\<close>

lemma fold_meet_fst_snd:
  "fold meet occ (tab, ids) = (fst (fold meet occ (tab, ids)), snd (fold meet occ (tab, ids)))"
  by simp

lemma fold_meet_terms:
  "fst ` set (fst (fold meet occ (tab, ids))) = fst ` set tab \<union> (\<lambda>(t, d, n). t) ` set occ"
  by (induction occ arbitrary: tab ids)
     (auto simp: meet_pair add_posting_def upsert_key_set split: prod.splits)

lemma fold_meet_terms_distinct:
  "distinct (map fst tab) \<Longrightarrow> distinct (map fst (fst (fold meet occ (tab, ids))))"
  by (induction occ arbitrary: tab ids)
     (auto simp: meet_pair add_posting_def upsert_distinct split: prod.splits)

lemma fold_meet_ids:
  "set (snd (fold meet occ (tab, ids))) = set ids \<union> (\<lambda>(t, d, n). d) ` set occ"
  by (induction occ arbitrary: tab ids) (auto simp: meet_pair split: prod.splits)

lemma fold_meet_ids_distinct:
  "distinct ids \<Longrightarrow> distinct (snd (fold meet occ (tab, ids)))"
  by (induction occ arbitrary: tab ids) (auto simp: meet_pair split: prod.splits)

lemma seen_after_Cons:
  "seen_after acc (x # xs) = seen_after (if x \<in> set acc then acc else acc @ [x]) xs"
proof (cases "x \<in> set acc")
  case True
  then have "filter (\<lambda>y. y \<notin> set acc) (removeAll x (first_seen xs))
           = filter (\<lambda>y. y \<notin> set acc) (first_seen xs)"
    by (auto simp: removeAll_filter_not_eq intro: filter_cong)
  with True show ?thesis by (simp add: seen_after_def)
next
  case False
  have "filter (\<lambda>y. y \<notin> set acc) (removeAll x (first_seen xs))
      = filter (\<lambda>y. y \<noteq> x \<and> y \<notin> set acc) (first_seen xs)"
    by (auto simp: removeAll_filter_not_eq intro: filter_cong)
  with False show ?thesis by (simp add: seen_after_def)
qed

lemma fold_meet_docs_keys:
  "map fst (docs_of (fst (fold meet occ (tab, ids))) t) =
     seen_after (map fst (docs_of tab t))
       (map (\<lambda>(t', d, n). d) (filter (\<lambda>(t', d, n). t' = t) occ))"
proof (induction occ arbitrary: tab ids)
  case Nil
  then show ?case by (simp add: seen_after_def)
next
  case (Cons o1 occ)
  obtain t1 d1 n1 where o1: "o1 = (t1, d1, n1)" by (cases o1)
  show ?case
    unfolding o1
    by (simp add: meet_pair Cons.IH docs_of_add_posting keys_add_tf seen_after_Cons)
qed

lemma fold_meet_docs_distinct:
  "distinct (map fst (docs_of tab t)) \<Longrightarrow>
   distinct (map fst (docs_of (fst (fold meet occ (tab, ids))) t))"
proof (induction occ arbitrary: tab ids)
  case Nil
  then show ?case by simp
next
  case (Cons o1 occ)
  obtain t1 d1 n1 where o1: "o1 = (t1, d1, n1)" by (cases o1)
  have "distinct (map fst (docs_of (add_posting t1 d1 n1 tab) t))"
    using Cons.prems by (auto simp: docs_of_add_posting keys_add_tf)
  then show ?case
    unfolding o1 using Cons.IH by (simp add: meet_pair)
qed

lemma no_occurrence:
  "(t, d) \<notin> (\<lambda>(t', d', n). (t', d')) ` set occ \<Longrightarrow>
   filter (\<lambda>(t', d', n). t' = t \<and> d' = d) occ = []"
  by (induction occ) (auto split: prod.splits)

lemma fold_meet_tf:
  "map_of (docs_of (fst (fold meet occ (tab, ids))) t) d =
     (if (t, d) \<in> (\<lambda>(t', d', n). (t', d')) ` set occ
      then Some ((case map_of (docs_of tab t) d of None \<Rightarrow> 0 | Some m \<Rightarrow> m)
                 + sum_list (map (\<lambda>(t', d', n). n) (filter (\<lambda>(t', d', n). t' = t \<and> d' = d) occ)))
      else map_of (docs_of tab t) d)"
proof (induction occ arbitrary: tab ids)
  case Nil
  then show ?case by simp
next
  case (Cons o1 occ)
  obtain t1 d1 n1 where o1: "o1 = (t1, d1, n1)" by (cases o1)
  show ?case
  proof (cases "(t, d) \<in> (\<lambda>(t', d', n). (t', d')) ` set occ")
    case True
    then show ?thesis
      by (simp add: o1 meet_pair Cons.IH docs_of_add_posting map_of_add_tf split: option.splits)
  next
    case False
    then have "filter (\<lambda>(t', d', n). t' = t \<and> d' = d) occ = []"
      by (rule no_occurrence)
    with False show ?thesis
      by (auto simp: o1 meet_pair Cons.IH docs_of_add_posting map_of_add_tf
          split: option.splits)
  qed
qed

lemma write_term_invf:
  "invf (write_term dumps N tab t st) =
     invf st @ encode_line dumps (make_record N t (docs_of tab t))"
  by (simp add: write_term_def Let_def)

lemma write_term_vocab:
  "vocab (write_term dumps N tab t st) =
     (let e = \<lparr>ve_df = rec_df (make_record N t (docs_of tab t)),
               ve_offset = length (invf st),
               ve_length = length (encode_line dumps (make_record N t (docs_of tab t)))\<rparr>
      in upsert t e (\<lambda>_. e) (vocab st))"
  by (simp add: write_term_def Let_def)

lemma write_term_sums:
  "doc_sq_sums (write_term dumps N tab t st) =
     fold add_square (rec_postings (make_record N t (docs_of tab t))) (doc_sq_sums st)"
  by (simp add: write_term_def Let_def)

lemma fold_write_invf:
  "invf (fold (write_term dumps N tab) ts st) =
     invf st @ concat (map (\<lambda>t. encode_line dumps (make_record N t (docs_of tab t))) ts)"
  by (induction ts arbitrary: st) (simp_all add: write_term_invf)

lemma fold_write_vocab_other:
  "t \<notin> set ts \<Longrightarrow> map_of (vocab (fold (write_term dumps N tab) ts st)) t = map_of (vocab st) t"
  by (induction ts arbitrary: st) (simp_all add: write_term_vocab map_of_upsert Let_def)

lemma fold_write_vocab_keys:
  "map fst (vocab (fold (write_term dumps N tab) ts st)) =
     fold (\<lambda>t ks. if t \<in> set ks then ks else ks @ [t]) ts (map fst (vocab st))"
  by (induction ts arbitrary: st) (simp_all add: write_term_vocab upsert_keys Let_def)

lemma fold_append_new:
  "distinct ts \<Longrightarrow> set ts \<inter> set ks = {} \<Longrightarrow>
   fold (\<lambda>t ks. if t \<in> set ks then ks else ks @ [t]) ts ks = ks @ ts"
  by (induction ts arbitrary: ks) auto

lemma fold_write_slice:
  assumes "distinct ts" and "t \<in> set ts"
  shows "\<exists>e. map_of (vocab (fold (write_term dumps N tab) ts st)) t = Some e
    \<and> ve_df e = rec_df (make_record N t (docs_of tab t))
    \<and> ve_length e = length (encode_line dumps (make_record N t (docs_of tab t)))
    \<and> take (ve_length e) (drop (ve_offset e) (invf (fold (write_term dumps N tab) ts st)))
        = encode_line dumps (make_record N t (docs_of tab t))"
  using assms
proof (induction ts arbitrary: st)
  case Nil
  then show ?case by simp
next
  case (Cons u ts)
  let ?st = "write_term dumps N tab u st"
  show ?case
  proof (cases "t = u")
    case True
    let ?line = "encode_line dumps (make_record N t (docs_of tab t))"
    let ?e = "\<lparr>ve_df = rec_df (make_record N t (docs_of tab t)),
               ve_offset = length (invf st), ve_length = length ?line\<rparr>"
    have "t \<notin> set ts" using Cons.prems True by simp
    then have "map_of (vocab (fold (write_term dumps N tab) ts ?st)) t = map_of (vocab ?st) t"
      by (rule fold_write_vocab_other)
    also have "\<dots> = Some ?e"
      by (simp add: True write_term_vocab map_of_upsert Let_def split: option.splits)
    finally have v: "map_of (vocab (fold (write_term dumps N tab) (u # ts) st)) t = Some ?e"
      by simp
    have "invf (fold (write_term dumps N tab) (u # ts) st) =
            invf st @ ?line @ concat (map (\<lambda>t. encode_line dumps (make_record N t (docs_of tab t))) ts)"
      by (simp add: fold_write_invf write_term_invf True)
    then have "take (length ?line) (drop (length (invf st)) (invf (fold (write_term dumps N tab) (u # ts) st)))
          = ?line"
      by simp
    with v show ?thesis by simp
  next
    case False
    with Cons.prems have "distinct ts" and "t \<in> set ts" by simp_all
    from Cons.IH [OF this, of ?st] show ?thesis by simp
  qed
qed

lemma add_square_keys: "fst ` set (add_square p sq) = insert (fst p) (fst ` set sq)"
  by (cases p) (simp add: add_square_def upsert_key_set)

lemma fold_add_square_keys:
  "fst ` set (fold add_square ps sq) = fst ` set sq \<union> fst ` set ps"
  by (induction ps arbitrary: sq) (simp_all add: add_square_keys)

lemma fold_add_square_distinct:
  "distinct (map fst sq) \<Longrightarrow> distinct (map fst (fold add_square ps sq))"
  by (induction ps arbitrary: sq) (auto simp: add_square_def upsert_distinct split: prod.splits)

lemma make_record_docs: "map fst (rec_postings (make_record N t docs)) = map fst docs"
  by (simp add: make_record_def case_prod_unfold)

lemma make_record_doc_set: "fst ` set (rec_postings (make_record N t docs)) = fst ` set docs"
  using arg_cong [OF make_record_docs, of set N t docs] by simp

lemma fold_write_sums_keys:
  "fst ` set (doc_sq_sums (fold (write_term dumps N tab) ts st)) =
     fst ` set (doc_sq_sums st) \<union> (\<Union>t\<in>set ts. fst ` set (docs_of tab t))"
  by (induction ts arbitrary: st)
     (auto simp: write_term_sums fold_add_square_keys make_record_doc_set)

lemma fold_write_sums_distinct:
  "distinct (map fst (doc_sq_sums st)) \<Longrightarrow>
   distinct (map fst (doc_sq_sums (fold (write_term dumps N tab) ts st)))"
  by (induction ts arbitrary: st) (simp_all add: write_term_sums fold_add_square_distinct)

lemma merge_blocks_Inr:
  assumes "merge_blocks dumps dir = Inr out"
  obtains blocks tab ids where
    "those (map snd (block_files dir)) = Some blocks"
    "block_files dir \<noteq> []"
    "aggregate blocks = (tab, ids)"
    "ids \<noteq> []"
    "out = \<lparr>inverted = invf (write_terms dumps (length ids) tab),
            out_vocab = vocab (write_terms dumps (length ids) tab),
            doc_norms = map (\<lambda>(d, sq). (d, sqrt sq)) (doc_sq_sums (write_terms dumps (length ids) tab)),
            out_N = length ids\<rparr>"
  using assms
  by (auto simp: merge_blocks_def Let_def split: if_splits option.splits prod.splits)

lemma set_first_seen: "set (first_seen xs) = set xs"
  by (induction xs) auto

lemma distinct_first_seen: "distinct (first_seen xs)"
  by (induction xs) (auto simp: distinct_removeAll)

text \<open>The state of the merger after the aggregation, in terms of the occurrences.\<close>

lemma aggregate_facts:
  assumes "aggregate blocks = (tab, ids)"
  shows "distinct (map fst tab)"
    and "distinct ids"
    and "set ids = (\<lambda>(t, d, n). d) ` set (occurrences blocks)"
    and "fst ` set tab = (\<lambda>(t, d, n). t) ` set (occurrences blocks)"
    and "map fst (docs_of tab t) = docs_met blocks t"
    and "distinct (map fst (docs_of tab t))"
    and "map_of (docs_of tab t) d =
           (if (t, d) \<in> (\<lambda>(t', d', n). (t', d')) ` set (occurrences blocks)
            then Some (total_tf blocks t d) else None)"
proof -
  have tab: "tab = fst (fold meet (occurrences blocks) ([], []))"
    and ids: "ids = snd (fold meet (occurrences blocks) ([], []))"
    using assms by (simp_all add: aggregate_meet)
  show "distinct (map fst tab)" unfolding tab by (rule fold_meet_terms_distinct) simp
  show "distinct ids" unfolding ids by (rule fold_meet_ids_distinct) simp
  show "set ids = (\<lambda>(t, d, n). d) ` set (occurrences blocks)"
    unfolding ids by (simp add: fold_meet_ids)
  show "fst ` set tab = (\<lambda>(t, d, n). t) ` set (occurrences blocks)"
    unfolding tab by (simp add: fold_meet_terms)
  have empty: "docs_of [] t = []" by (simp add: docs_of_def)
  show "map fst (docs_of tab t) = docs_met blocks t"
    unfolding tab by (simp add: fold_meet_docs_keys empty seen_after_def docs_met_def)
  show "distinct (map fst (docs_of tab t))"
    unfolding tab by (rule fold_meet_docs_distinct) (simp add: empty)
  show "map_of (docs_of tab t) d =
           (if (t, d) \<in> (\<lambda>(t', d', n). (t', d')) ` set (occurrences blocks)
            then Some (total_tf blocks t d) else None)"
    unfolding tab by (simp add: fold_meet_tf empty total_tf_def)
qed

lemma docs_met_set:
  "set (docs_met blocks t) = {d. \<exists>n. (t, d, n) \<in> set (occurrences blocks)}"
  by (force simp: docs_met_def set_first_seen)

lemma all_docs_union:
  "(\<Union>t\<in>(\<lambda>(t, d, n). t) ` set occ. {d. \<exists>n. (t, d, n) \<in> set occ}) = (\<lambda>(t, d, n). d) ` set occ"
  by force

lemma write_terms_vocab_keys:
  assumes "distinct (map fst tab)"
  shows "map fst (vocab (write_terms dumps N tab)) = sort (map fst tab)"
  unfolding write_terms_def using assms
  by (simp add: fold_write_vocab_keys fold_append_new)

lemma write_terms_slice:
  assumes "distinct (map fst tab)" and "map_of (vocab (write_terms dumps N tab)) t = Some e"
  shows "t \<in> fst ` set tab
    \<and> ve_df e = rec_df (make_record N t (docs_of tab t))
    \<and> ve_length e = length (encode_line dumps (make_record N t (docs_of tab t)))
    \<and> take (ve_length e) (drop (ve_offset e) (invf (write_terms dumps N tab)))
        = encode_line dumps (make_record N t (docs_of tab t))"
proof -
  have "(t, e) \<in> set (vocab (write_terms dumps N tab))"
    using assms(2) by (rule map_of_SomeD)
  then have "t \<in> fst ` set (vocab (write_terms dumps N tab))"
    by force
  then have "t \<in> set (map fst (vocab (write_terms dumps N tab)))" by simp
  then have t: "t \<in> set (sort (map fst tab))"
    using write_terms_vocab_keys [OF assms(1)] by simp
  have d: "distinct (sort (map fst tab))" using assms(1) by simp
  from fold_write_slice [OF d t, of dumps N tab "\<lparr>invf = [], vocab = [], doc_sq_sums = []\<rparr>"]
  show ?thesis using assms(2) t by (auto simp: write_terms_def)
qed

lemma write_terms_invf:
  "invf (write_terms dumps N tab) = concat (map (encode_line dumps) (term_records N tab))"
  by (simp add: write_terms_def fold_write_invf term_records_def comp_def)

lemma term_records_sorted:
  "distinct (map fst tab) \<Longrightarrow> sorted_wrt (<) (map rec_term (term_records N tab))"
proof -
  assume "distinct (map fst tab)"
  have "map rec_term (term_records N tab) = sort (map fst tab)"
    by (simp add: term_records_def comp_def make_record_def)
  moreover have "sorted_wrt (<) (sort (map fst tab))"
    using \<open>distinct (map fst tab)\<close> by (simp add: strict_sorted_iff)
  ultimately show ?thesis by simp
qed

lemma write_terms_sums:
  assumes "aggregate blocks = (tab, ids)"
  shows "distinct (map fst (doc_sq_sums (write_terms dumps N tab)))"
    and "set (map fst (doc_sq_sums (write_terms dumps N tab))) = set ids"
proof -
  show "distinct (map fst (doc_sq_sums (write_terms dumps N tab)))"
    unfolding write_terms_def by (rule fold_write_sums_distinct) simp
  have "fst ` set (docs_of tab t) = {d. \<exists>n. (t, d, n) \<in> set (occurrences blocks)}" for t
    using aggregate_facts(5) [OF assms, of t] docs_met_set [of blocks t]
    by (metis set_map)
  then have "fst ` set (doc_sq_sums (write_terms dumps N tab)) =
      (\<Union>t\<in>fst ` set tab. {d. \<exists>n. (t, d, n) \<in> set (occurrences blocks)})"
    by (simp add: write_terms_def fold_write_sums_keys)
  also have "\<dots> = set ids"
    unfolding aggregate_facts(3,4) [OF assms] by (rule all_docs_union)
  finally show "set (map fst (doc_sq_sums (write_terms dumps N tab))) = set ids" by simp
qed

lemma sample_names: "block_name 0 = ''block_0.json''" "block_name 1 = ''block_1.json''"
  by code_simp+

lemma sample_files:
  "block_files sample_dir =
     [(''block_0.json'', Some (sample_blocks ! 0)), (''block_1.json'', Some (sample_blocks ! 1))]"
  unfolding sample_dir_def sample_names sample_blocks_def
  by (simp add: block_files_def glob_match_def)

lemma sample_nonempty: "block_files sample_dir \<noteq> []"
  by (simp add: sample_files)

lemma sample_those: "those (map snd (block_files sample_dir)) = Some sample_blocks"
  by (simp add: sample_files sample_blocks_def)

lemma sample_aggregate:
  "aggregate sample_blocks
   = ([(''gato'', [(''1'', 1), (''3'', 1)]), (''com'', [(''1'', 1), (''2'', 1)]),
       (''pesc'', [(''1'', 1)]), (''perr'', [(''2'', 1)]), (''carn'', [(''2'', 1)]),
       (''duerm'', [(''3'', 1)])],
      [''3'', ''2'', ''1''])"
  by (simp add: sample_blocks_def aggregate_def read_block_def read_posting_def add_posting_def
      add_tf_def)

lemma sample_merge:
  "\<exists>norms. merge_blocks sample_dumps sample_dir =
     Inr \<lparr>inverted = ''carn:2,'' @ [CHR 0x0A] @ ''com:1,2,'' @ [CHR 0x0A] @ ''duerm:3,'' @ [CHR 0x0A]
            @ ''gato:1,3,'' @ [CHR 0x0A] @ ''perr:2,'' @ [CHR 0x0A] @ ''pesc:1,'' @ [CHR 0x0A],
          out_vocab =
            [(''carn'', \<lparr>ve_df = 1, ve_offset = 0, ve_length = 8\<rparr>),
             (''com'', \<lparr>ve_df = 2, ve_offset = 8, ve_length = 9\<rparr>),
             (''duerm'', \<lparr>ve_df = 1, ve_offset = 17, ve_length = 9\<rparr>),
             (''gato'', \<lparr>ve_df = 2, ve_offset = 26, ve_length = 10\<rparr>),
             (''perr'', \<lparr>ve_df = 1, ve_offset = 36, ve_length = 8\<rparr>),
             (''pesc'', \<lparr>ve_df = 1, ve_offset = 44, ve_length = 8\<rparr>)],
          doc_norms = norms, out_N = 3\<rparr>"
  by (simp add: merge_blocks_def sample_nonempty sample_those sample_aggregate Let_def write_terms_def
      write_term_def docs_of_def make_record_def encode_line_def sample_dumps_def add_square_def)

lemma merge_blocks_records:
  assumes "merge_blocks dumps dir = Inr out"
  obtains blocks tab ids where
    "those (map snd (block_files dir)) = Some blocks"
    "aggregate blocks = (tab, ids)"
    "ids \<noteq> []"
    "merged_records dumps dir = term_records (length ids) tab"
    "out = \<lparr>inverted = invf (write_terms dumps (length ids) tab),
            out_vocab = vocab (write_terms dumps (length ids) tab),
            doc_norms = map (\<lambda>(d, sq). (d, sqrt sq)) (doc_sq_sums (write_terms dumps (length ids) tab)),
            out_N = length ids\<rparr>"
proof -
  from assms obtain blocks tab ids where
    a: "those (map snd (block_files dir)) = Some blocks" "aggregate blocks = (tab, ids)" "ids \<noteq> []"
    "out = \<lparr>inverted = invf (write_terms dumps (length ids) tab),
            out_vocab = vocab (write_terms dumps (length ids) tab),
            doc_norms = map (\<lambda>(d, sq). (d, sqrt sq)) (doc_sq_sums (write_terms dumps (length ids) tab)),
            out_N = length ids\<rparr>"
    by (rule merge_blocks_Inr)
  then have "merged_records dumps dir = term_records (length ids) tab"
    by (simp add: merged_records_def)
  with a show thesis using that by blast
qed

lemma record_in_term_records:
  "t \<in> fst ` set tab \<Longrightarrow> make_record N t (docs_of tab t) \<in> set (term_records N tab)"
  by (force simp: term_records_def)

text \<open>
  Claim C5. For every term of the dictionary of a successful merge, the bytes of the
  postings store from the entry's offset, as many as its length, are exactly the encoded
  line of one record of the merge, whose term is the dictionary key and whose \<open>df\<close> is the
  entry's. When the JSON library reads back the lines it wrote, the slice parses to that
  record and \<open>_read_postings\<close> returns its postings.
\<close>

theorem dictionary_locates_record:
  assumes "merge_blocks dumps dir = Inr out" and "map_of (out_vocab out) t = Some meta"
    and "\<forall>r\<in>set (merged_records dumps dir). loads (encode_line dumps r) = Some (as_json r)"
  shows "\<exists>r\<in>set (merged_records dumps dir).
      take (ve_length meta) (drop (ve_offset meta) (inverted out)) = encode_line dumps r
    \<and> rec_term r = t \<and> rec_df r = ve_df meta
    \<and> loads (take (ve_length meta) (drop (ve_offset meta) (inverted out)))
         = Some (JObject (Some t) (Some (ve_df meta)) (Some (rec_postings r)))
    \<and> read_postings loads (index_of out) t = Inr (rec_postings r, ve_length meta)"
proof -
  from assms(1) obtain blocks tab ids where
    agg: "aggregate blocks = (tab, ids)" and
    recs: "merged_records dumps dir = term_records (length ids) tab" and
    out: "out = \<lparr>inverted = invf (write_terms dumps (length ids) tab),
            out_vocab = vocab (write_terms dumps (length ids) tab),
            doc_norms = map (\<lambda>(d, sq). (d, sqrt sq)) (doc_sq_sums (write_terms dumps (length ids) tab)),
            out_N = length ids\<rparr>"
    by (rule merge_blocks_records)
  let ?r = "make_record (length ids) t (docs_of tab t)"
  have m: "map_of (vocab (write_terms dumps (length ids) tab)) t = Some meta"
    using assms(2) out by simp
  note ws = write_terms_slice [OF aggregate_facts(1) [OF agg] m]
  have df: "ve_df meta = rec_df ?r" using ws by blast
  have "t \<in> fst ` set tab" using ws by blast
  then have mem: "?r \<in> set (merged_records dumps dir)"
    unfolding recs by (rule record_in_term_records)
  have "take (ve_length meta) (drop (ve_offset meta) (invf (write_terms dumps (length ids) tab)))
      = encode_line dumps ?r"
    using ws by blast
  then have slice:
    "take (ve_length meta) (drop (ve_offset meta) (inverted out)) = encode_line dumps ?r"
    by (simp add: out)
  have tm: "rec_term ?r = t" by (simp add: make_record_def)
  have ld: "loads (encode_line dumps ?r) = Some (as_json ?r)"
    using assms(3) mem by blast
  then have "loads (take (ve_length meta) (drop (ve_offset meta) (inverted out)))
           = Some (JObject (Some t) (Some (ve_df meta)) (Some (rec_postings ?r)))
         \<and> read_postings loads (index_of out) t = Inr (rec_postings ?r, ve_length meta)"
    using slice assms(2) df tm by (simp add: read_postings_def index_of_def as_json_def)
  with df slice tm mem show ?thesis by metis
qed

lemma sample_records:
  "merged_records sample_dumps sample_dir =
     [make_record 3 ''carn'' [(''2'', 1)], make_record 3 ''com'' [(''1'', 1), (''2'', 1)],
      make_record 3 ''duerm'' [(''3'', 1)], make_record 3 ''gato'' [(''1'', 1), (''3'', 1)],
      make_record 3 ''perr'' [(''2'', 1)], make_record 3 ''pesc'' [(''1'', 1)]]"
  by (simp add: merged_records_def sample_those sample_aggregate term_records_def docs_of_def
      numeral_3_eq_3)

lemma sample_loads_inverse:
  "\<forall>r\<in>set (merged_records sample_dumps sample_dir).
     table_loads sample_dumps (merged_records sample_dumps sample_dir) (encode_line sample_dumps r)
       = Some (as_json r)"
  unfolding sample_records
  by (simp add: table_loads_def encode_line_def sample_dumps_def make_record_def)

theorem dictionary_locates_record_witness:
  "\<exists>out. merge_blocks sample_dumps sample_dir = Inr out
     \<and> map_of (out_vocab out) ''gato'' = Some \<lparr>ve_df = 2, ve_offset = 26, ve_length = 10\<rparr>
     \<and> take 10 (drop 26 (inverted out)) = ''gato:1,3,'' @ [CHR 0x0A]
     \<and> (\<exists>ps. table_loads sample_dumps (merged_records sample_dumps sample_dir)
                (take 10 (drop 26 (inverted out))) = Some (JObject (Some ''gato'') (Some 2) (Some ps)))"
proof -
  from sample_merge obtain out where
    m: "merge_blocks sample_dumps sample_dir = Inr out"
    and v: "map_of (out_vocab out) ''gato'' = Some \<lparr>ve_df = 2, ve_offset = 26, ve_length = 10\<rparr>"
    and s: "take 10 (drop 26 (inverted out)) = ''gato:1,3,'' @ [CHR 0x0A]"
    by force
  from dictionary_locates_record [OF m v sample_loads_inverse]
  show ?thesis using m v s by auto
qed

lemma filter_same_key:
  "distinct (map f zs) \<Longrightarrow> k \<in> set zs \<Longrightarrow> filter (\<lambda>x. f k = f x) zs = [k]"
proof (induction zs)
  case Nil
  then show ?case by simp
next
  case (Cons z zs)
  show ?case
  proof (cases "k = z")
    case True
    have "filter (\<lambda>x. f z = f x) zs = []"
      using Cons.prems(1) by (auto simp: filter_empty_conv)
    with True show ?thesis by simp
  next
    case False
    with Cons.prems have k: "k \<in> set zs" by simp
    then have "f k \<in> f ` set zs" by (rule imageI)
    then have "f k \<noteq> f z" using Cons.prems(1) by auto
    with Cons k show ?thesis by simp
  qed
qed

lemma sort_key_mset:
  assumes "distinct (map f ys)" and "mset xs = mset ys"
  shows "sort_key f xs = sort_key f ys"
proof (rule properties_for_sort_key)
  show "mset (sort_key f ys) = mset xs" using assms(2) by simp
  show "sorted (map f (sort_key f ys))" by simp
  have dx: "distinct (map f xs)"
    using assms by (metis mset_eq_imp_distinct_iff mset_map)
  have ds: "distinct (map f (sort_key f ys))" using assms(1) by (simp add: distinct_map)
  show "filter (\<lambda>x. f k = f x) (sort_key f ys) = filter (\<lambda>x. f k = f x) xs"
    if "k \<in> set (sort_key f ys)" for k
  proof -
    from that have "k \<in> set xs" using assms(2) by (metis mset_eq_setD set_sort)
    then show ?thesis
      using filter_same_key [OF ds that] filter_same_key [OF dx] by simp
  qed
qed

lemma block_files_mset:
  assumes "distinct (map fst dir)" and "mset dir' = mset dir"
  shows "block_files dir' = block_files dir"
proof -
  let ?p = "\<lambda>(name, _). glob_match name"
  have "distinct (map fst (filter ?p dir))" using assms(1) by (rule distinct_map_filter)
  moreover have "mset (filter ?p dir') = mset (filter ?p dir)"
    using assms(2) by (metis mset_filter)
  ultimately show ?thesis unfolding block_files_def by (rule sort_key_mset)
qed

lemma merged_layout:
  assumes "merge_blocks dumps dir = Inr out"
  shows "inverted out = concat (map (encode_line dumps) (merged_records dumps dir))"
    and "sorted_wrt (<) (map rec_term (merged_records dumps dir))"
proof -
  from assms obtain blocks tab ids where
    agg: "aggregate blocks = (tab, ids)" and
    recs: "merged_records dumps dir = term_records (length ids) tab" and
    out: "out = \<lparr>inverted = invf (write_terms dumps (length ids) tab),
            out_vocab = vocab (write_terms dumps (length ids) tab),
            doc_norms = map (\<lambda>(d, sq). (d, sqrt sq)) (doc_sq_sums (write_terms dumps (length ids) tab)),
            out_N = length ids\<rparr>"
    by (rule merge_blocks_records)
  show "inverted out = concat (map (encode_line dumps) (merged_records dumps dir))"
    by (simp add: out recs write_terms_invf)
  show "sorted_wrt (<) (map rec_term (merged_records dumps dir))"
    unfolding recs using aggregate_facts(1) [OF agg] by (rule term_records_sorted)
qed

text \<open>
  Claim C6. The output of a merge depends on the set of files in the directory only, not
  on the order in which the directory lists them: two runs over the same files write the
  same bytes. The postings store is the sequence of the encoded lines of the records of
  the merge, and the terms of these records are strictly ascending.
\<close>

theorem merge_deterministic_and_sorted:
  assumes "distinct (map fst dir)" and "mset dir' = mset dir"
    and "merge_blocks dumps dir = Inr out"
  shows "merge_blocks dumps dir' = Inr out
    \<and> inverted out = concat (map (encode_line dumps) (merged_records dumps dir))
    \<and> sorted_wrt (<) (map rec_term (merged_records dumps dir))"
proof -
  have "block_files dir' = block_files dir" using assms(1,2) by (rule block_files_mset)
  then have "merge_blocks dumps dir' = merge_blocks dumps dir"
    by (simp add: merge_blocks_def)
  with assms(3) merged_layout [OF assms(3)] show ?thesis by simp
qed

lemma sample_distinct: "distinct (map fst sample_dir)"
  unfolding sample_dir_def sample_names by simp

theorem merge_deterministic_and_sorted_witness:
  "\<exists>out. merge_blocks sample_dumps sample_dir = Inr out
     \<and> merge_blocks sample_dumps (rev sample_dir) = Inr out
     \<and> inverted out = ''carn:2,'' @ [CHR 0x0A] @ ''com:1,2,'' @ [CHR 0x0A] @ ''duerm:3,'' @ [CHR 0x0A]
            @ ''gato:1,3,'' @ [CHR 0x0A] @ ''perr:2,'' @ [CHR 0x0A] @ ''pesc:1,'' @ [CHR 0x0A]
     \<and> map rec_term (merged_records sample_dumps sample_dir)
         = [''carn'', ''com'', ''duerm'', ''gato'', ''perr'', ''pesc'']"
proof -
  from sample_merge obtain out where
    m: "merge_blocks sample_dumps sample_dir = Inr out"
    and i: "inverted out = ''carn:2,'' @ [CHR 0x0A] @ ''com:1,2,'' @ [CHR 0x0A] @ ''duerm:3,'' @ [CHR 0x0A]
            @ ''gato:1,3,'' @ [CHR 0x0A] @ ''perr:2,'' @ [CHR 0x0A] @ ''pesc:1,'' @ [CHR 0x0A]"
    by force
  have p: "mset (rev sample_dir) = mset sample_dir" by simp
  have t: "map rec_term (merged_records sample_dumps sample_dir)
         = [''carn'', ''com'', ''duerm'', ''gato'', ''perr'', ''pesc'']"
    by (simp add: sample_records make_record_def)
  have r: "merge_blocks sample_dumps (rev sample_dir) = Inr out"
    using merge_deterministic_and_sorted [OF sample_distinct p m] by (rule conjunct1)
  show ?thesis
  proof (intro exI conjI)
    show "merge_blocks sample_dumps sample_dir = Inr out" by (rule m)
    show "merge_blocks sample_dumps (rev sample_dir) = Inr out" by (rule r)
    show "inverted out = ''carn:2,'' @ [CHR 0x0A] @ ''com:1,2,'' @ [CHR 0x0A] @ ''duerm:3,'' @ [CHR 0x0A]
            @ ''gato:1,3,'' @ [CHR 0x0A] @ ''perr:2,'' @ [CHR 0x0A] @ ''pesc:1,'' @ [CHR 0x0A]"
      by (rule i)
    show "map rec_term (merged_records sample_dumps sample_dir)
         = [''carn'', ''com'', ''duerm'', ''gato'', ''perr'', ''pesc'']"
      by (rule t)
  qed
qed

lemma merged_term_record:
  assumes "merge_blocks dumps dir = Inr out"
    and "those (map snd (block_files dir)) = Some blocks"
    and "map_of (out_vocab out) t = Some meta"
  obtains tab ids where
    "aggregate blocks = (tab, ids)"
    "ids \<noteq> []"
    "out_N out = length ids"
    "t \<in> fst ` set tab"
    "make_record (length ids) t (docs_of tab t) \<in> set (merged_records dumps dir)"
    "take (ve_length meta) (drop (ve_offset meta) (inverted out))
       = encode_line dumps (make_record (length ids) t (docs_of tab t))"
    "ve_df meta = length (docs_of tab t)"
proof -
  from assms(1) obtain blocks' tab ids where
    b: "those (map snd (block_files dir)) = Some blocks'" and
    agg': "aggregate blocks' = (tab, ids)" and ne: "ids \<noteq> []" and
    recs: "merged_records dumps dir = term_records (length ids) tab" and
    out: "out = \<lparr>inverted = invf (write_terms dumps (length ids) tab),
            out_vocab = vocab (write_terms dumps (length ids) tab),
            doc_norms = map (\<lambda>(d, sq). (d, sqrt sq)) (doc_sq_sums (write_terms dumps (length ids) tab)),
            out_N = length ids\<rparr>"
    by (rule merge_blocks_records)
  from b assms(2) have "blocks' = blocks" by simp
  with agg' have agg: "aggregate blocks = (tab, ids)" by simp
  let ?r = "make_record (length ids) t (docs_of tab t)"
  have m: "map_of (vocab (write_terms dumps (length ids) tab)) t = Some meta"
    using assms(3) out by simp
  note ws = write_terms_slice [OF aggregate_facts(1) [OF agg] m]
  have t: "t \<in> fst ` set tab" using ws by blast
  then have mem: "?r \<in> set (merged_records dumps dir)"
    unfolding recs by (rule record_in_term_records)
  have "take (ve_length meta) (drop (ve_offset meta) (invf (write_terms dumps (length ids) tab)))
      = encode_line dumps ?r"
    using ws by blast
  then have slice:
    "take (ve_length meta) (drop (ve_offset meta) (inverted out)) = encode_line dumps ?r"
    by (simp add: out)
  have "ve_df meta = rec_df ?r" using ws by blast
  then have df: "ve_df meta = length (docs_of tab t)" by (simp add: make_record_def)
  have n: "out_N out = length ids" by (simp add: out)
  from agg ne n t mem slice df show thesis by (rule that)
qed






text \<open>
  Claim C3, as amended. The merge enumerates the block files in ascending order of their
  file names, compared as strings, and aggregates them in that order; for every term of
  the dictionary, the documents of the postings in its record are the documents the
  blocks list for it, each once, in the order in which that enumeration first meets them.
\<close>

theorem postings_follow_file_names:
  assumes "merge_blocks dumps dir = Inr out"
    and "those (map snd (block_files dir)) = Some blocks"
    and "map_of (out_vocab out) t = Some meta"
  shows "sorted (map fst (block_files dir))
    \<and> mset (block_files dir) = mset (filter (\<lambda>(name, _). glob_match name) dir)
    \<and> (\<exists>r\<in>set (merged_records dumps dir).
          take (ve_length meta) (drop (ve_offset meta) (inverted out)) = encode_line dumps r
        \<and> rec_term r = t
        \<and> map fst (rec_postings r) = docs_met blocks t)"
proof -
  from assms obtain tab ids where
    agg: "aggregate blocks = (tab, ids)" and
    mem: "make_record (length ids) t (docs_of tab t) \<in> set (merged_records dumps dir)" and
    slice: "take (ve_length meta) (drop (ve_offset meta) (inverted out))
       = encode_line dumps (make_record (length ids) t (docs_of tab t))"
    by (rule merged_term_record)
  let ?r = "make_record (length ids) t (docs_of tab t)"
  have "map fst (rec_postings ?r) = docs_met blocks t"
    using aggregate_facts(5) [OF agg, of t] by (simp add: make_record_docs)
  moreover have "rec_term ?r = t" by (simp add: make_record_def)
  ultimately have "\<exists>r\<in>set (merged_records dumps dir).
          take (ve_length meta) (drop (ve_offset meta) (inverted out)) = encode_line dumps r
        \<and> rec_term r = t
        \<and> map fst (rec_postings r) = docs_met blocks t"
    using mem slice by blast
  then show ?thesis by (simp add: block_files_def)
qed

theorem postings_follow_file_names_witness:
  "\<exists>out. merge_blocks sample_dumps sample_dir = Inr out
     \<and> map fst (block_files sample_dir) = [''block_0.json'', ''block_1.json'']
     \<and> docs_met sample_blocks ''gato'' = [''1'', ''3'']
     \<and> (\<exists>r. r \<in> set (merged_records sample_dumps sample_dir)
           \<and> rec_term r = ''gato'' \<and> map fst (rec_postings r) = [''1'', ''3''])"
proof -
  from sample_merge obtain out where
    m: "merge_blocks sample_dumps sample_dir = Inr out"
    and v: "map_of (out_vocab out) ''gato'' = Some \<lparr>ve_df = 2, ve_offset = 26, ve_length = 10\<rparr>"
    by force
  have f: "map fst (block_files sample_dir) = [''block_0.json'', ''block_1.json'']"
    by (simp add: sample_files)
  have d: "docs_met sample_blocks ''gato'' = [''1'', ''3'']"
    by (simp add: docs_met_def occurrences_def sample_blocks_def)
  from postings_follow_file_names [OF m sample_those v]
  obtain r where "r \<in> set (merged_records sample_dumps sample_dir)"
    "rec_term r = ''gato''" "map fst (rec_postings r) = docs_met sample_blocks ''gato''"
    by blast
  with d have "\<exists>r. r \<in> set (merged_records sample_dumps sample_dir)
           \<and> rec_term r = ''gato'' \<and> map fst (rec_postings r) = [''1'', ''3'']"
    by auto
  then obtain r where r: "r \<in> set (merged_records sample_dumps sample_dir)
           \<and> rec_term r = ''gato'' \<and> map fst (rec_postings r) = [''1'', ''3'']" ..
  show ?thesis
  proof (intro exI conjI)
    show "merge_blocks sample_dumps sample_dir = Inr out" by (rule m)
    show "map fst (block_files sample_dir) = [''block_0.json'', ''block_1.json'']" by (rule f)
    show "docs_met sample_blocks ''gato'' = [''1'', ''3'']" by (rule d)
    show "r \<in> set (merged_records sample_dumps sample_dir)" using r by (rule conjunct1)
    show "rec_term r = ''gato''" using r by (elim conjE)
    show "map fst (rec_postings r) = [''1'', ''3'']" using r by (elim conjE)
  qed
qed

lemma numbered_names:
  "map block_name [0..<11] =
     [''block_0.json'', ''block_1.json'', ''block_2.json'', ''block_3.json'', ''block_4.json'',
      ''block_5.json'', ''block_6.json'', ''block_7.json'', ''block_8.json'', ''block_9.json'',
      ''block_10.json'']"
  by code_simp

lemma numbered_dir_files:
  "numbered_dir =
     [(''block_0.json'', Some [(''a'', [(DStr ''0'', 1)])]),
      (''block_1.json'', Some [(''a'', [(DStr ''1'', 1)])]),
      (''block_2.json'', Some [(''a'', [(DStr ''2'', 1)])]),
      (''block_3.json'', Some [(''a'', [(DStr ''3'', 1)])]),
      (''block_4.json'', Some [(''a'', [(DStr ''4'', 1)])]),
      (''block_5.json'', Some [(''a'', [(DStr ''5'', 1)])]),
      (''block_6.json'', Some [(''a'', [(DStr ''6'', 1)])]),
      (''block_7.json'', Some [(''a'', [(DStr ''7'', 1)])]),
      (''block_8.json'', Some [(''a'', [(DStr ''8'', 1)])]),
      (''block_9.json'', Some [(''a'', [(DStr ''9'', 1)])]),
      (''block_10.json'', Some [(''a'', [(DStr ''10'', 1)])])]"
  by code_simp

lemma numbered_block_files:
  "block_files numbered_dir =
     [(''block_0.json'', Some [(''a'', [(DStr ''0'', 1)])]),
      (''block_1.json'', Some [(''a'', [(DStr ''1'', 1)])]),
      (''block_10.json'', Some [(''a'', [(DStr ''10'', 1)])]),
      (''block_2.json'', Some [(''a'', [(DStr ''2'', 1)])]),
      (''block_3.json'', Some [(''a'', [(DStr ''3'', 1)])]),
      (''block_4.json'', Some [(''a'', [(DStr ''4'', 1)])]),
      (''block_5.json'', Some [(''a'', [(DStr ''5'', 1)])]),
      (''block_6.json'', Some [(''a'', [(DStr ''6'', 1)])]),
      (''block_7.json'', Some [(''a'', [(DStr ''7'', 1)])]),
      (''block_8.json'', Some [(''a'', [(DStr ''8'', 1)])]),
      (''block_9.json'', Some [(''a'', [(DStr ''9'', 1)])])]"
  unfolding numbered_dir_files by (simp add: block_files_def glob_match_def)

text \<open>
  Claim C3, as stated, fails. With eleven blocks \<open>block_0.json\<close> to \<open>block_10.json\<close>, block
  \<open>i\<close> holding document \<open>i\<close> for the term \<open>a\<close>, the merge reads block 10 before block 2,
  and the postings of \<open>a\<close> list document 10 before document 2.
\<close>

theorem block_ten_before_block_two:
  "map fst (block_files numbered_dir) = map block_name [0, 1, 10, 2, 3, 4, 5, 6, 7, 8, 9]
   \<and> map fst (block_files numbered_dir) \<noteq> map block_name [0..<11]
   \<and> (\<exists>out. merge_blocks sample_dumps numbered_dir = Inr out
         \<and> inverted out = ''a:0,1,10,2,3,4,5,6,7,8,9,'' @ [CHR 0x0A])"
proof -
  have n: "map block_name [0, 1, 10, 2, 3, 4, 5, 6, 7, 8, 9] =
     [''block_0.json'', ''block_1.json'', ''block_10.json'', ''block_2.json'', ''block_3.json'',
      ''block_4.json'', ''block_5.json'', ''block_6.json'', ''block_7.json'', ''block_8.json'',
      ''block_9.json'']"
    by code_simp
  have a: "map fst (block_files numbered_dir) = map block_name [0, 1, 10, 2, 3, 4, 5, 6, 7, 8, 9]"
    unfolding n by (simp add: numbered_block_files)
  have b: "map fst (block_files numbered_dir) \<noteq> map block_name [0..<11]"
    unfolding numbered_names by (simp add: numbered_block_files)
  have agg: "aggregate [[(''a'', [(DStr ''0'', 1)])], [(''a'', [(DStr ''1'', 1)])],
        [(''a'', [(DStr ''10'', 1)])], [(''a'', [(DStr ''2'', 1)])], [(''a'', [(DStr ''3'', 1)])],
        [(''a'', [(DStr ''4'', 1)])], [(''a'', [(DStr ''5'', 1)])], [(''a'', [(DStr ''6'', 1)])],
        [(''a'', [(DStr ''7'', 1)])], [(''a'', [(DStr ''8'', 1)])], [(''a'', [(DStr ''9'', 1)])]]
      = ([(''a'', [(''0'', 1), (''1'', 1), (''10'', 1), (''2'', 1), (''3'', 1), (''4'', 1),
                   (''5'', 1), (''6'', 1), (''7'', 1), (''8'', 1), (''9'', 1)])],
         [''9'', ''8'', ''7'', ''6'', ''5'', ''4'', ''3'', ''2'', ''10'', ''1'', ''0''])"
    by (simp add: aggregate_def read_block_def read_posting_def add_posting_def add_tf_def)
  have c: "\<exists>out. merge_blocks sample_dumps numbered_dir = Inr out
         \<and> inverted out = ''a:0,1,10,2,3,4,5,6,7,8,9,'' @ [CHR 0x0A]"
    by (simp add: merge_blocks_def numbered_block_files agg Let_def write_terms_def
        write_term_def docs_of_def make_record_def encode_line_def sample_dumps_def add_square_def)
  from a b c show ?thesis by (intro conjI)
qed

section \<open>Properties of the query engine\<close>

subsection \<open>The terms of the query\<close>

lemma count_tokens_keys:
  "distinct (map fst (count_tokens tokens)) \<and> fst ` set (count_tokens tokens) = set tokens"
proof -
  have "distinct (map fst (fold (\<lambda>t q. upsert t (0 + 1) (\<lambda>c. c + 1) q) ts q))
      \<and> fst ` set (fold (\<lambda>t q. upsert t (0 + 1) (\<lambda>c. c + 1) q) ts q) = fst ` set q \<union> set ts"
    if "distinct (map fst q)" for ts and q :: "(string \<times> nat) list"
    using that
    by (induction ts arbitrary: q) (auto simp: upsert_distinct upsert_key_set)
  from this [of "[]" tokens] show ?thesis by (simp add: count_tokens_def)
qed

lemma touched_bytes_sum: "touched_bytes ix tokens = sum (entry_length ix) (set tokens)"
proof -
  have "touched_bytes ix tokens = sum_list (map (entry_length ix) (remdups tokens))"
    by (simp add: touched_bytes_def entry_length_def [abs_def])
  also have "\<dots> = sum (entry_length ix) (set (remdups tokens))"
    by (rule sum_list_distinct_conv_sum_set) simp
  finally show ?thesis by simp
qed

subsection \<open>The scoring loop\<close>

lemma read_postings_Inr:
  "read_postings loads ix t = Inr (ps, br) \<Longrightarrow>
   br = entry_length ix t \<and> ps = postings_of loads ix t"
  by (simp add: postings_of_def entry_length_def read_postings_def)
     (auto simp: Let_def split: option.splits json_doc.splits)

lemma postings_of_absent: "map_of (ix_vocab ix) t = None \<Longrightarrow> postings_of loads ix t = []"
  by (simp add: postings_of_def read_postings_def)

lemma add_dot_keys: "fst ` set (add_dot q_w p acc) = insert (fst p) (fst ` set acc)"
  by (cases p) (simp add: add_dot_def upsert_key_set)

lemma add_dot_distinct: "distinct (map fst acc) \<Longrightarrow> distinct (map fst (add_dot q_w p acc))"
  by (cases p) (simp add: add_dot_def upsert_distinct)

lemma fold_add_dot_keys:
  "fst ` set (fold (add_dot q_w) ps acc) = fst ` set acc \<union> fst ` set ps"
  by (induction ps arbitrary: acc) (simp_all add: add_dot_keys)

lemma fold_add_dot_distinct:
  "distinct (map fst acc) \<Longrightarrow> distinct (map fst (fold (add_dot q_w) ps acc))"
  by (induction ps arbitrary: acc) (simp_all add: add_dot_distinct)

lemma score_terms_ConsE:
  assumes "score_terms loads ix ((t, tf) # items) s = Inr s'"
  obtains (absent) "map_of (ix_vocab ix) t = None" "score_terms loads ix items s = Inr s'"
  | (present) meta q_w where "map_of (ix_vocab ix) t = Some meta"
      "score_terms loads ix items
         \<lparr>accum = fold (add_dot q_w) (postings_of loads ix t) (accum s),
          q_sq_sum = q_sq_sum s + q_w * q_w,
          bytes = bytes s + entry_length ix t\<rparr> = Inr s'"
proof (cases "map_of (ix_vocab ix) t")
  case None
  with assms have "score_terms loads ix items s = Inr s'" by simp
  with None show thesis by (rule absent)
next
  case (Some meta)
  with assms obtain idf_t ps br where
    r: "read_postings loads ix t = Inr (ps, br)" and
    rest: "score_terms loads ix items
       \<lparr>accum = fold (add_dot ((if tf > 0 then 1 + log 10 (real tf) else 0) * idf_t)) ps (accum s),
        q_sq_sum = q_sq_sum s + ((if tf > 0 then 1 + log 10 (real tf) else 0) * idf_t)
                    * ((if tf > 0 then 1 + log 10 (real tf) else 0) * idf_t),
        bytes = bytes s + br\<rparr> = Inr s'"
    by (auto simp: Let_def split: sum.splits prod.splits)
  from read_postings_Inr [OF r] rest Some show thesis by (auto intro: present)
qed

lemma score_terms_bytes:
  "score_terms loads ix items s = Inr s' \<Longrightarrow>
   bytes s' = bytes s + sum_list (map (\<lambda>(t, tf). entry_length ix t) items)"
proof (induction items arbitrary: s)
  case Nil
  then show ?case by simp
next
  case (Cons item items)
  obtain t tf where item: "item = (t, tf)" by (cases item)
  from Cons.prems [unfolded item] show ?case
  proof (cases rule: score_terms_ConsE)
    case absent
    from Cons.IH [OF absent(2)] absent(1) show ?thesis by (simp add: item entry_length_def)
  next
    case (present meta q_w)
    from Cons.IH [OF present(2)] show ?thesis by (simp add: item)
  qed
qed

lemma score_terms_keys:
  "score_terms loads ix items s = Inr s' \<Longrightarrow>
   fst ` set (accum s') =
     fst ` set (accum s) \<union> (\<Union>t\<in>fst ` set items. fst ` set (postings_of loads ix t))"
proof (induction items arbitrary: s)
  case Nil
  then show ?case by simp
next
  case (Cons item items)
  obtain t tf where item: "item = (t, tf)" by (cases item)
  from Cons.prems [unfolded item] show ?case
  proof (cases rule: score_terms_ConsE)
    case absent
    from Cons.IH [OF absent(2)] postings_of_absent [OF absent(1), of loads] show ?thesis
      by (simp add: item)
  next
    case (present meta q_w)
    from Cons.IH [OF present(2)] show ?thesis by (auto simp: item fold_add_dot_keys)
  qed
qed

lemma score_terms_distinct:
  "score_terms loads ix items s = Inr s' \<Longrightarrow> distinct (map fst (accum s)) \<Longrightarrow>
   distinct (map fst (accum s'))"
proof (induction items arbitrary: s)
  case Nil
  then show ?case by simp
next
  case (Cons item items)
  obtain t tf where item: "item = (t, tf)" by (cases item)
  from Cons.prems(1) [unfolded item] show ?case
  proof (cases rule: score_terms_ConsE)
    case absent
    from Cons.IH [OF absent(2) Cons.prems(2)] show ?thesis .
  next
    case (present meta q_w)
    from Cons.IH [OF present(2)] Cons.prems(2) show ?thesis by (simp add: fold_add_dot_distinct)
  qed
qed

subsection \<open>The selection of the top k\<close>

lemma heappush_length: "length (heappush heap x) = Suc (length heap)"
  by (simp add: heappush_def)

lemma heapreplace_length: "heap \<noteq> [] \<Longrightarrow> length (heapreplace heap x) = length heap"
  by (simp add: heapreplace_def)

lemma heappush_docs: "mset (map snd (heappush heap x)) = add_mset (snd x) (mset (map snd heap))"
  by (simp add: heappush_def)

lemma heapreplace_docs:
  "mset (map snd (heapreplace heap x)) = add_mset (snd x) (mset (map snd (tl heap)))"
  by (simp add: heapreplace_def)

lemma distinct_add_doc:
  assumes "mset ds' = add_mset d (mset ds)" and "distinct ds" and "d \<notin> set ds"
  shows "distinct ds' \<and> set ds' = insert d (set ds)"
proof -
  have "mset ds' = mset (d # ds)" using assms(1) by simp
  then have "distinct ds' \<longleftrightarrow> distinct (d # ds)" and "set ds' = set (d # ds)"
    by (rule mset_eq_imp_distinct_iff, rule mset_eq_setD)
  with assms(2,3) show ?thesis by simp
qed

lemma select_top_length:
  "select_top ix k q_norm items heap = Inr heap' \<Longrightarrow> int (length heap) \<le> k \<Longrightarrow>
   length heap' = min (nat k) (length heap + length (eligible ix items))"
proof (induction items arbitrary: heap)
  case Nil
  then show ?case by (simp add: eligible_def)
next
  case (Cons item items)
  obtain d dot where item: "item = (d, dot)" by (cases item)
  show ?case
  proof (cases "doc_norm ix d = 0")
    case True
    with Cons.prems have "select_top ix k q_norm items heap = Inr heap'" by (simp add: item)
    from Cons.IH [OF this Cons.prems(2)] True show ?thesis by (simp add: item eligible_def)
  next
    case False
    let ?x = "(dot / (q_norm * doc_norm ix d), d)"
    show ?thesis
    proof (cases "int (length heap) < k")
      case True
      with False Cons.prems have "select_top ix k q_norm items (heappush heap ?x) = Inr heap'"
        by (simp add: item Let_def)
      moreover have "int (length (heappush heap ?x)) \<le> k" using True by (simp add: heappush_length)
      ultimately have "length heap' = min (nat k) (length (heappush heap ?x) + length (eligible ix items))"
        by (rule Cons.IH)
      with False show ?thesis by (simp add: item eligible_def heappush_length)
    next
      case full: False
      with Cons.prems(2) have k: "int (length heap) = k" by simp
      from full False Cons.prems(1) obtain least rest where heap: "heap = least # rest"
        by (cases heap) (auto simp: item Let_def)
      have "\<exists>h. select_top ix k q_norm items h = Inr heap' \<and> length h = length heap"
      proof (cases "dot / (q_norm * doc_norm ix d) > fst least")
        case True
        with full False Cons.prems(1) heap
        have "select_top ix k q_norm items (heapreplace heap ?x) = Inr heap'"
          by (simp add: item Let_def)
        moreover have "length (heapreplace heap ?x) = length heap"
          using heap by (simp add: heapreplace_length)
        ultimately show ?thesis by blast
      next
        case False
        with full \<open>doc_norm ix d \<noteq> 0\<close> Cons.prems(1) heap
        have "select_top ix k q_norm items heap = Inr heap'"
          by (simp add: item Let_def)
        then show ?thesis by blast
      qed
      then obtain h where h: "select_top ix k q_norm items h = Inr heap'"
        and lh: "length h = length heap" by blast
      from Cons.IH [OF h] lh k have "length heap' = min (nat k) (length heap + length (eligible ix items))"
        by simp
      with k False show ?thesis by (simp add: item eligible_def)
    qed
  qed
qed

lemma select_top_docs:
  "select_top ix k q_norm items heap = Inr heap' \<Longrightarrow> distinct (map snd heap) \<Longrightarrow>
   distinct (map fst items) \<Longrightarrow> snd ` set heap \<inter> fst ` set items = {} \<Longrightarrow>
   distinct (map snd heap') \<and> snd ` set heap' \<subseteq> snd ` set heap \<union> fst ` set items"
proof (induction items arbitrary: heap)
  case Nil
  then show ?case by simp
next
  case (Cons item items)
  obtain d dot where item: "item = (d, dot)" by (cases item)
  let ?x = "(dot / (q_norm * doc_norm ix d), d)"
  have fresh: "d \<notin> snd ` set heap" and rest_fresh: "d \<notin> fst ` set items"
    and di: "distinct (map fst items)" and disj: "snd ` set heap \<inter> fst ` set items = {}"
    using Cons.prems(3,4) by (auto simp: item)
  have step: "distinct (map snd heap') \<and> snd ` set heap' \<subseteq> snd ` set heap \<union> fst ` set (item # items)"
    if h: "select_top ix k q_norm items h = Inr heap'"
      and dh: "distinct (map snd h)" and sh: "snd ` set h \<subseteq> insert d (snd ` set heap)" for h
  proof -
    have "snd ` set h \<inter> fst ` set items = {}" using sh disj rest_fresh by auto
    from Cons.IH [OF h dh di this]
    have d': "distinct (map snd heap')" and s': "snd ` set heap' \<subseteq> snd ` set h \<union> fst ` set items"
      by blast+
    from s' sh have "snd ` set heap' \<subseteq> snd ` set heap \<union> insert d (fst ` set items)" by blast
    with d' show ?thesis by (simp add: item)
  qed
  have push: "distinct (map snd (heappush heap ?x)) \<and> snd ` set (heappush heap ?x) \<subseteq> insert d (snd ` set heap)"
  proof -
    have "d \<notin> set (map snd heap)" using fresh by simp
    from distinct_add_doc [OF heappush_docs [of heap ?x] Cons.prems(2)] this
    have "distinct (map snd (heappush heap ?x))"
      and "set (map snd (heappush heap ?x)) = insert d (set (map snd heap))" by simp_all
    then show ?thesis by simp
  qed
  have replace: "distinct (map snd (heapreplace heap ?x)) \<and>
      snd ` set (heapreplace heap ?x) \<subseteq> insert d (snd ` set heap)"
  proof -
    have dt: "distinct (map snd (tl heap))" using Cons.prems(2) by (cases heap) simp_all
    have st: "set (map snd (tl heap)) \<subseteq> set (map snd heap)" by (cases heap) auto
    then have "d \<notin> set (map snd (tl heap))" using fresh by auto
    from distinct_add_doc [OF heapreplace_docs [of heap ?x] dt] this
    have "distinct (map snd (heapreplace heap ?x))"
      and "set (map snd (heapreplace heap ?x)) = insert d (set (map snd (tl heap)))" by simp_all
    with st show ?thesis by auto
  qed
  from Cons.prems(1) consider
    "select_top ix k q_norm items heap = Inr heap'"
    | "select_top ix k q_norm items (heappush heap ?x) = Inr heap'"
    | "select_top ix k q_norm items (heapreplace heap ?x) = Inr heap'"
    by (auto simp: item Let_def split: if_splits list.splits)
  then show ?case
  proof cases
    case 1
    then show ?thesis using Cons.prems(2) by (rule step) auto
  next
    case 2
    then show ?thesis using push by (intro step) auto
  next
    case 3
    then show ?thesis using replace by (intro step) auto
  qed
qed

lemma select_top_total:
  "1 \<le> k \<Longrightarrow> \<exists>heap'. select_top ix k q_norm items heap = Inr heap'"
proof (induction items arbitrary: heap)
  case Nil
  then show ?case by simp
next
  case (Cons item items)
  obtain d dot where item: "item = (d, dot)" by (cases item)
  show ?case
  proof (cases heap)
    case Nil
    with Cons show ?thesis by (simp add: item Let_def)
  next
    case (Cons least rest)
    with Cons.IH [OF Cons.prems] show ?thesis by (simp add: item Let_def)
  qed
qed

lemma sorted_desc_docs: "mset (map fst (sorted_desc xs)) = mset (map fst xs)"
proof -
  have "mset (sorted_desc xs) = mset xs" by (simp add: sorted_desc_def)
  then have "image_mset fst (mset (sorted_desc xs)) = image_mset fst (mset xs)" by simp
  then show ?thesis by simp
qed

lemma sorted_desc_length: "length (sorted_desc xs) = length xs"
  by (simp add: sorted_desc_def)

subsection \<open>The query as a whole\<close>

lemma score_tokens_Inr:
  assumes "score_tokens loads ix tokens k = Inr res"
  obtains s heap where
    "score_terms loads ix (count_tokens tokens) \<lparr>accum = [], q_sq_sum = 0, bytes = 0\<rparr> = Inr s"
    "select_top ix k (if q_sq_sum s > 0 then sqrt (q_sq_sum s) else 1) (accum s) [] = Inr heap"
    "results res = sorted_desc (sorted_desc (map (\<lambda>(score, doc_id). (doc_id, score)) heap))"
    "bytes_read res = bytes s"
  using assms
  by (auto simp: score_tokens_def Let_def split: sum.splits)

lemma query_Inr:
  assumes "preprocess unidecode snowball env r qtext = Inr (r', tokens)"
    and "query unidecode snowball env r loads ix qtext k = Inr (r'', res)"
  obtains (empty) "tokens = []" "res = \<lparr>results = [], bytes_read = 0\<rparr>"
  | (scored) "tokens \<noteq> []" "score_tokens loads ix tokens k = Inr res"
  using assms
  by (auto simp: query_def split: if_splits sum.splits)

lemma score_tokens_bytes:
  assumes "score_tokens loads ix tokens k = Inr res"
  shows "bytes_read res = touched_bytes ix tokens"
proof -
  from assms obtain s where
    s: "score_terms loads ix (count_tokens tokens) \<lparr>accum = [], q_sq_sum = 0, bytes = 0\<rparr> = Inr s"
    and b: "bytes_read res = bytes s"
    by (rule score_tokens_Inr)
  have "bytes s = sum_list (map (entry_length ix) (map fst (count_tokens tokens)))"
    using score_terms_bytes [OF s] by (simp add: case_prod_unfold comp_def)
  also have "\<dots> = sum (entry_length ix) (set (map fst (count_tokens tokens)))"
    using count_tokens_keys [of tokens] by (intro sum_list_distinct_conv_sum_set) simp
  also have "\<dots> = touched_bytes ix tokens"
    using count_tokens_keys [of tokens] by (simp add: touched_bytes_sum)
  finally show ?thesis using b by simp
qed

lemma score_terms_absent:
  "\<forall>t\<in>fst ` set items. map_of (ix_vocab ix) t = None \<Longrightarrow> score_terms loads ix items s = Inr s"
  by (induction items) auto

lemma score_tokens_absent:
  assumes "\<forall>t\<in>set tokens. map_of (ix_vocab ix) t = None"
  shows "score_tokens loads ix tokens k = Inr \<lparr>results = [], bytes_read = 0\<rparr>"
proof -
  have "\<forall>t\<in>fst ` set (count_tokens tokens). map_of (ix_vocab ix) t = None"
    using assms count_tokens_keys [of tokens] by simp
  then have "score_terms loads ix (count_tokens tokens) \<lparr>accum = [], q_sq_sum = 0, bytes = 0\<rparr>
      = Inr \<lparr>accum = [], q_sq_sum = 0, bytes = 0\<rparr>"
    by (rule score_terms_absent)
  then show ?thesis by (simp add: score_tokens_def sorted_desc_def)
qed

lemma score_tokens_docs:
  assumes "score_tokens loads ix tokens k = Inr res"
  shows "distinct (map fst (results res))"
proof -
  from assms obtain s heap where
    s: "score_terms loads ix (count_tokens tokens) \<lparr>accum = [], q_sq_sum = 0, bytes = 0\<rparr> = Inr s"
    and h: "select_top ix k (if q_sq_sum s > 0 then sqrt (q_sq_sum s) else 1) (accum s) [] = Inr heap"
    and r: "results res = sorted_desc (sorted_desc (map (\<lambda>(score, doc_id). (doc_id, score)) heap))"
    by (rule score_tokens_Inr)
  have "distinct (map fst (accum s))" using score_terms_distinct [OF s] by simp
  with select_top_docs [OF h] have "distinct (map snd heap)" by simp
  moreover have "mset (map fst (results res))
      = mset (map fst (map (\<lambda>(score, doc_id). (doc_id, score)) heap))"
    unfolding r by (simp only: sorted_desc_docs)
  moreover have "map fst (map (\<lambda>(score, doc_id). (doc_id, score)) heap) = map snd heap"
    by (simp add: case_prod_unfold comp_def)
  ultimately show ?thesis by (metis mset_eq_imp_distinct_iff)
qed

lemma eligible_count:
  assumes "distinct (map fst items)"
  shows "length (eligible ix items) = card {d \<in> fst ` set items. doc_norm ix d \<noteq> 0}"
proof -
  have "map fst (eligible ix items) = filter (\<lambda>d. doc_norm ix d \<noteq> 0) (map fst items)"
    by (simp add: eligible_def filter_map comp_def case_prod_unfold)
  then have "length (eligible ix items) = length (filter (\<lambda>d. doc_norm ix d \<noteq> 0) (map fst items))"
    by (metis length_map)
  also have "\<dots> = card (set (filter (\<lambda>d. doc_norm ix d \<noteq> 0) (map fst items)))"
  proof -
    have "distinct (filter (\<lambda>d. doc_norm ix d \<noteq> 0) (map fst items))"
      using assms by (rule distinct_filter)
    then show ?thesis by (simp only: distinct_card)
  qed
  also have "set (filter (\<lambda>d. doc_norm ix d \<noteq> 0) (map fst items))
      = {d \<in> fst ` set items. doc_norm ix d \<noteq> 0}"
    by auto
  finally show ?thesis .
qed

lemma score_tokens_length:
  assumes "score_tokens loads ix tokens k = Inr res" and "0 \<le> k"
  shows "length (results res)
    = min (nat k) (card {d \<in> candidates loads ix tokens. doc_norm ix d \<noteq> 0})"
proof -
  from assms(1) obtain s heap where
    s: "score_terms loads ix (count_tokens tokens) \<lparr>accum = [], q_sq_sum = 0, bytes = 0\<rparr> = Inr s"
    and h: "select_top ix k (if q_sq_sum s > 0 then sqrt (q_sq_sum s) else 1) (accum s) [] = Inr heap"
    and r: "results res = sorted_desc (sorted_desc (map (\<lambda>(score, doc_id). (doc_id, score)) heap))"
    by (rule score_tokens_Inr)
  have d: "distinct (map fst (accum s))" using score_terms_distinct [OF s] by simp
  have "fst ` set (accum s) = candidates loads ix tokens"
    using score_terms_keys [OF s] count_tokens_keys [of tokens] by (simp add: candidates_def)
  with eligible_count [OF d, of ix]
  have "length (eligible ix (accum s)) = card {d \<in> candidates loads ix tokens. doc_norm ix d \<noteq> 0}"
    by simp
  moreover have "length heap = min (nat k) (length (eligible ix (accum s)))"
    using select_top_length [OF h] assms(2) by simp
  moreover have "length (results res) = length heap" by (simp add: r sorted_desc_length)
  ultimately show ?thesis by simp
qed

lemma upsert_filter:
  "filter (\<lambda>p. P (fst p)) (upsert k new f q) =
     (if P k then upsert k new f (filter (\<lambda>p. P (fst p)) q) else filter (\<lambda>p. P (fst p)) q)"
  by (induction q) auto

lemma count_tokens_filter:
  "count_tokens (filter P tokens) = filter (\<lambda>p. P (fst p)) (count_tokens tokens)"
proof -
  let ?step = "\<lambda>t q. upsert t (0 + 1) (\<lambda>c. c + 1) (q :: (string \<times> nat) list)"
  have "fold ?step (filter P ts) (filter (\<lambda>p. P (fst p)) q)
      = filter (\<lambda>p. P (fst p)) (fold ?step ts q)" for ts q
  proof (induction ts arbitrary: q)
    case Nil
    then show ?case by simp
  next
    case (Cons a ts)
    have f: "filter (\<lambda>p. P (fst p)) (?step a q) =
        (if P a then ?step a (filter (\<lambda>p. P (fst p)) q) else filter (\<lambda>p. P (fst p)) q)"
      by (rule upsert_filter)
    show ?case
    proof (cases "P a")
      case True
      with f have "?step a (filter (\<lambda>p. P (fst p)) q) = filter (\<lambda>p. P (fst p)) (?step a q)"
        by simp
      with True Cons.IH [of "?step a q"] show ?thesis by simp
    next
      case False
      with f have "filter (\<lambda>p. P (fst p)) q = filter (\<lambda>p. P (fst p)) (?step a q)" by simp
      with False Cons.IH [of "?step a q"] show ?thesis by simp
    qed
  qed
  from this [of tokens "[]"] show ?thesis by (simp add: count_tokens_def)
qed

lemma score_terms_filter:
  "score_terms loads ix (filter (\<lambda>p. in_vocab ix (fst p)) items) s
     = score_terms loads ix items s"
proof (induction items arbitrary: s)
  case Nil
  then show ?case by simp
next
  case (Cons item items)
  obtain t tf where item: "item = (t, tf)" by (cases item)
  show ?case
  proof (cases "map_of (ix_vocab ix) t")
    case None
    then have "\<not> in_vocab ix t" by (simp add: in_vocab_def)
    with None show ?thesis by (simp add: item Cons.IH)
  next
    case (Some meta)
    then have "in_vocab ix t" by (simp add: in_vocab_def)
    with Some show ?thesis
      by (simp add: item Cons.IH Let_def split: sum.splits prod.splits)
  qed
qed

lemma score_tokens_filter:
  "score_tokens loads ix (filter (in_vocab ix) tokens) k = score_tokens loads ix tokens k"
  by (simp add: score_tokens_def count_tokens_filter score_terms_filter)

text \<open>
  Claim C8. For every query that returns, \<open>bytes_read\<close> is the sum of the \<open>length\<close> fields
  of the dictionary entries of the distinct terms of the query that are in the dictionary,
  whatever \<open>json.loads\<close> makes of the bytes (a record that fails to parse included); terms
  outside the dictionary add nothing, and a query all of whose terms are outside it
  returns the empty result with zero bytes rather than an error. In general, scoring the
  tokens of a query has the same outcome, result or error, as scoring only those of its
  tokens that are in the dictionary.
\<close>

theorem bytes_read_exact:
  assumes "preprocess unidecode snowball env r qtext = Inr (r', tokens)"
  shows "(\<forall>r'' res. query unidecode snowball env r loads ix qtext k = Inr (r'', res)
            \<longrightarrow> bytes_read res = touched_bytes ix tokens)
    \<and> ((\<forall>t\<in>set tokens. map_of (ix_vocab ix) t = None)
            \<longrightarrow> query unidecode snowball env r loads ix qtext k
                  = Inr (r', \<lparr>results = [], bytes_read = 0\<rparr>))
    \<and> score_tokens loads ix tokens k = score_tokens loads ix (filter (in_vocab ix) tokens) k"
proof (intro conjI allI impI)
  fix r'' res
  assume "query unidecode snowball env r loads ix qtext k = Inr (r'', res)"
  with assms show "bytes_read res = touched_bytes ix tokens"
  proof (cases rule: query_Inr)
    case empty
    then show ?thesis by (simp add: touched_bytes_def)
  next
    case scored
    then show ?thesis using score_tokens_bytes by blast
  qed
next
  assume "\<forall>t\<in>set tokens. map_of (ix_vocab ix) t = None"
  then have "score_tokens loads ix tokens k = Inr \<lparr>results = [], bytes_read = 0\<rparr>"
    by (rule score_tokens_absent)
  with assms show "query unidecode snowball env r loads ix qtext k
      = Inr (r', \<lparr>results = [], bytes_read = 0\<rparr>)"
    by (simp add: query_def)
next
  show "score_tokens loads ix tokens k = score_tokens loads ix (filter (in_vocab ix) tokens) k"
    by (rule score_tokens_filter [symmetric])
qed

lemma heappush_set: "set (heappush heap x) = insert x (set heap)"
  by (simp add: heappush_def set_insort_key)

lemma heapreplace_set: "set (heapreplace heap x) \<subseteq> insert x (set heap)"
proof -
  have "set (tl heap) \<subseteq> set heap" by (cases heap) auto
  then show ?thesis by (auto simp: heapreplace_def set_insort_key)
qed

lemma select_top_eligible:
  "select_top ix k q_norm items heap = Inr heap' \<Longrightarrow>
   snd ` set heap' \<subseteq> snd ` set heap \<union> fst ` set (eligible ix items)"
proof (induction items arbitrary: heap)
  case Nil
  then show ?case by simp
next
  case (Cons item items)
  obtain d dot where item: "item = (d, dot)" by (cases item)
  let ?x = "(dot / (q_norm * doc_norm ix d), d)"
  show ?case
  proof (cases "doc_norm ix d = 0")
    case True
    with Cons.prems have "select_top ix k q_norm items heap = Inr heap'" by (simp add: item)
    from Cons.IH [OF this] True show ?thesis by (simp add: item eligible_def)
  next
    case False
    then have el: "fst ` set (eligible ix (item # items)) = insert d (fst ` set (eligible ix items))"
      by (simp add: item eligible_def)
    from Cons.prems False consider
      "select_top ix k q_norm items heap = Inr heap'"
      | "select_top ix k q_norm items (heappush heap ?x) = Inr heap'"
      | "select_top ix k q_norm items (heapreplace heap ?x) = Inr heap'"
      by (auto simp: item Let_def split: if_splits list.splits)
    then show ?thesis
    proof cases
      case 1
      from Cons.IH [OF 1] show ?thesis unfolding el by blast
    next
      case 2
      have "snd ` set (heappush heap ?x) \<subseteq> insert d (snd ` set heap)"
        by (simp add: heappush_set)
      with Cons.IH [OF 2] show ?thesis unfolding el by blast
    next
      case 3
      have "snd ` set (heapreplace heap ?x) \<subseteq> insert d (snd ` set heap)"
        using heapreplace_set [of heap ?x] by force
      with Cons.IH [OF 3] show ?thesis unfolding el by blast
    qed
  qed
qed

lemma eligible_docs: "fst ` set (eligible ix items) = {d \<in> fst ` set items. doc_norm ix d \<noteq> 0}"
  by (force simp: eligible_def)

lemma score_tokens_members:
  assumes "score_tokens loads ix tokens k = Inr res"
  shows "fst ` set (results res) \<subseteq> {d \<in> candidates loads ix tokens. doc_norm ix d \<noteq> 0}"
proof -
  from assms obtain s heap where
    s: "score_terms loads ix (count_tokens tokens) \<lparr>accum = [], q_sq_sum = 0, bytes = 0\<rparr> = Inr s"
    and h: "select_top ix k (if q_sq_sum s > 0 then sqrt (q_sq_sum s) else 1) (accum s) [] = Inr heap"
    and r: "results res = sorted_desc (sorted_desc (map (\<lambda>(score, doc_id). (doc_id, score)) heap))"
    by (rule score_tokens_Inr)
  have keys: "fst ` set (accum s) = candidates loads ix tokens"
    using score_terms_keys [OF s] count_tokens_keys [of tokens] by (simp add: candidates_def)
  have "mset (map fst (results res))
      = mset (map fst (map (\<lambda>(score, doc_id). (doc_id, score)) heap))"
    unfolding r by (simp only: sorted_desc_docs)
  moreover have "map fst (map (\<lambda>(score, doc_id). (doc_id, score)) heap) = map snd heap"
    by (simp add: case_prod_unfold comp_def)
  ultimately have "set (map fst (results res)) = set (map snd heap)"
    by (metis mset_eq_setD)
  then have "fst ` set (results res) = snd ` set heap" by simp
  also have "\<dots> \<subseteq> fst ` set (eligible ix (accum s))"
    using select_top_eligible [OF h] by simp
  also have "\<dots> = {d \<in> candidates loads ix tokens. doc_norm ix d \<noteq> 0}"
    by (simp add: eligible_docs keys)
  finally show ?thesis .
qed

text \<open>
  Claim C9. The result list of a query never names a document twice: the dot products
  are accumulated in a dictionary keyed by document id, and every key enters the heap at
  most once. The documents it names are candidates of the query whose stored norm is not
  zero.
\<close>

theorem results_without_duplicates:
  assumes "preprocess unidecode snowball env r qtext = Inr (r', tokens)"
    and "query unidecode snowball env r loads ix qtext k = Inr (r'', res)"
  shows "distinct (map fst (results res))
    \<and> fst ` set (results res) \<subseteq> {d \<in> candidates loads ix tokens. doc_norm ix d \<noteq> 0}"
  using assms
proof (cases rule: query_Inr)
  case empty
  then show ?thesis by simp
next
  case scored
  from score_tokens_docs [OF scored(2)] score_tokens_members [OF scored(2)]
  show ?thesis by simp
qed

text \<open>
  Claim C2, as amended. For every query text and every capacity \<open>k \<ge> 1\<close>, the result list
  has as many entries as there are candidate documents (documents in the postings of the
  query's terms) whose stored norm is present and not zero, capped at \<open>k\<close>. Whether the
  score of such a document is zero plays no part.
\<close>

theorem results_length:
  assumes "preprocess unidecode snowball env r qtext = Inr (r', tokens)"
    and "query unidecode snowball env r loads ix qtext k = Inr (r'', res)"
    and "1 \<le> k"
  shows "length (results res)
    = min (nat k) (card {d \<in> candidates loads ix tokens. doc_norm ix d \<noteq> 0})"
  using assms(1,2)
proof (cases rule: query_Inr)
  case empty
  then show ?thesis by (simp add: candidates_def)
next
  case scored
  from score_tokens_length [OF scored(2)] assms(3) show ?thesis by simp
qed

subsection \<open>When a query returns\<close>

lemma query_idf_total: "ix_doc_norms ix \<noteq> [] \<Longrightarrow> \<exists>x. query_idf ix df = Inr x"
  by (auto simp: query_idf_def py_log10_def divide_le_0_iff)

lemma read_postings_total:
  "\<forall>data. loads data \<noteq> Some JOther \<Longrightarrow> \<exists>ps br. read_postings loads ix t = Inr (ps, br)"
  by (auto simp: read_postings_def Let_def split: option.splits json_doc.splits)

lemma score_terms_total:
  assumes "ix_doc_norms ix \<noteq> []" and "\<forall>data. loads data \<noteq> Some JOther"
  shows "\<exists>s'. score_terms loads ix items s = Inr s'"
proof (induction items arbitrary: s)
  case Nil
  then show ?case by simp
next
  case (Cons item items)
  obtain t tf where item: "item = (t, tf)" by (cases item)
  show ?case
  proof (cases "map_of (ix_vocab ix) t")
    case None
    with Cons.IH show ?thesis by (simp add: item)
  next
    case (Some meta)
    from query_idf_total [OF assms(1)] obtain x where x: "query_idf ix (ve_df meta) = Inr x" by blast
    from read_postings_total [OF assms(2)] obtain ps br where
      r: "read_postings loads ix t = Inr (ps, br)" by blast
    from Some x r Cons.IH show ?thesis by (simp add: item Let_def)
  qed
qed

lemma query_total:
  assumes "preprocess unidecode snowball env r qtext = Inr (r', tokens)"
    and "ix_doc_norms ix \<noteq> []" and "\<forall>data. loads data \<noteq> Some JOther" and "1 \<le> k"
  shows "\<exists>res. query unidecode snowball env r loads ix qtext k = Inr (r', res)"
proof -
  from score_terms_total [OF assms(2,3)] obtain s where
    s: "score_terms loads ix (count_tokens tokens) \<lparr>accum = [], q_sq_sum = 0, bytes = 0\<rparr> = Inr s"
    by blast
  from select_top_total [OF assms(4)] obtain heap where
    "select_top ix k (if q_sq_sum s > 0 then sqrt (q_sq_sum s) else 1) (accum s) [] = Inr heap"
    by blast
  with s have "\<exists>res. score_tokens loads ix tokens k = Inr res"
    by (simp add: score_tokens_def Let_def)
  with assms(1) show ?thesis by (auto simp: query_def)
qed

lemma table_loads_object: "\<forall>data. table_loads dumps rs data \<noteq> Some JOther"
  by (auto simp: table_loads_def as_json_def)

subsection \<open>The sample queries\<close>

lemma sample_tokenize:
  "tokenize (\<lambda>s. s) (Some ''el gato come xyz'') = [''el'', ''gato'', ''come'', ''xyz'']"
  "tokenize (\<lambda>s. s) (Some ''el xyz'') = [''el'', ''xyz'']"
  "tokenize (\<lambda>s. s) (Some ''gato'') = [''gato'']"
  by code_simp+

lemma sample_ensure:
  "ensure_nltk_resources (\<lambda>s. s) sample_env fresh = Inr sample_resources"
  "ensure_nltk_resources (\<lambda>s. s) sample_env sample_resources = Inr sample_resources"
proof -
  have "lower ''el'' = ''el''" "lower ''la'' = ''la''" "lower ''de'' = ''de''" by code_simp+
  then show "ensure_nltk_resources (\<lambda>s. s) sample_env fresh = Inr sample_resources"
    "ensure_nltk_resources (\<lambda>s. s) sample_env sample_resources = Inr sample_resources"
    by (simp_all add: ensure_nltk_resources_def load_nltk_def load_stemmer_def load_stopwords_def
        fresh_def sample_env_def sample_resources_def nltk_words_def)
qed

lemma sample_remove_stopwords:
  "remove_stopwords (\<lambda>s. s) sample_env fresh tokens
     = Inr (sample_resources, filter (\<lambda>t. t \<notin> {''el'', ''la'', ''de''}) tokens)"
  by (simp add: remove_stopwords_def sample_ensure) (simp add: sample_resources_def)

lemma sample_stem_tokens:
  "stem_tokens (\<lambda>s. s) sample_stem sample_env sample_resources tokens
     = Inr (sample_resources, map sample_stem tokens)"
  by (simp add: stem_tokens_def sample_ensure) (simp add: sample_resources_def)

lemma sample_preprocess:
  "preprocess (\<lambda>s. s) sample_stem sample_env fresh (Some ''el gato come xyz'')
     = Inr (sample_resources, [''gato'', ''com'', ''xyz''])"
  "preprocess (\<lambda>s. s) sample_stem sample_env fresh (Some ''el xyz'')
     = Inr (sample_resources, [''xyz''])"
  "preprocess (\<lambda>s. s) sample_stem sample_env fresh (Some ''gato'')
     = Inr (sample_resources, [''gato''])"
  by (simp_all add: preprocess_def sample_tokenize sample_remove_stopwords sample_stem_tokens
      sample_stem_def)

lemma sample_index:
  "\<exists>out. merge_blocks sample_dumps sample_dir = Inr out
     \<and> ix_inverted (index_of out) =
           ''carn:2,'' @ [CHR 0x0A] @ ''com:1,2,'' @ [CHR 0x0A] @ ''duerm:3,'' @ [CHR 0x0A]
            @ ''gato:1,3,'' @ [CHR 0x0A] @ ''perr:2,'' @ [CHR 0x0A] @ ''pesc:1,'' @ [CHR 0x0A]
     \<and> ix_vocab (index_of out) =
            [(''carn'', \<lparr>ve_df = 1, ve_offset = 0, ve_length = 8\<rparr>),
             (''com'', \<lparr>ve_df = 2, ve_offset = 8, ve_length = 9\<rparr>),
             (''duerm'', \<lparr>ve_df = 1, ve_offset = 17, ve_length = 9\<rparr>),
             (''gato'', \<lparr>ve_df = 2, ve_offset = 26, ve_length = 10\<rparr>),
             (''perr'', \<lparr>ve_df = 1, ve_offset = 36, ve_length = 8\<rparr>),
             (''pesc'', \<lparr>ve_df = 1, ve_offset = 44, ve_length = 8\<rparr>)]
     \<and> ix_doc_norms (index_of out) =
            [(''2'', sqrt (2 * (log 10 3 * log 10 3) + log 10 (3 / 2) * log 10 (3 / 2))),
             (''1'', sqrt (2 * (log 10 (3 / 2) * log 10 (3 / 2)) + log 10 3 * log 10 3)),
             (''3'', sqrt (log 10 3 * log 10 3 + log 10 (3 / 2) * log 10 (3 / 2)))]"
  by (simp add: merge_blocks_def sample_nonempty sample_those sample_aggregate Let_def write_terms_def
      write_term_def docs_of_def make_record_def encode_line_def sample_dumps_def add_square_def
      index_of_def idf_def tf_weight_def)

theorem bytes_read_exact_witness:
  "\<exists>out res. merge_blocks sample_dumps sample_dir = Inr out
     \<and> query (\<lambda>s. s) sample_stem sample_env fresh sample_loads (index_of out)
           (Some ''el gato come xyz'') 10 = Inr (sample_resources, res)
     \<and> bytes_read res = 19
     \<and> query (\<lambda>s. s) sample_stem sample_env fresh sample_loads (index_of out)
           (Some ''el xyz'') 10 = Inr (sample_resources, \<lparr>results = [], bytes_read = 0\<rparr>)"
proof -
  from sample_index obtain out where
    m: "merge_blocks sample_dumps sample_dir = Inr out"
    and v: "ix_vocab (index_of out) =
            [(''carn'', \<lparr>ve_df = 1, ve_offset = 0, ve_length = 8\<rparr>),
             (''com'', \<lparr>ve_df = 2, ve_offset = 8, ve_length = 9\<rparr>),
             (''duerm'', \<lparr>ve_df = 1, ve_offset = 17, ve_length = 9\<rparr>),
             (''gato'', \<lparr>ve_df = 2, ve_offset = 26, ve_length = 10\<rparr>),
             (''perr'', \<lparr>ve_df = 1, ve_offset = 36, ve_length = 8\<rparr>),
             (''pesc'', \<lparr>ve_df = 1, ve_offset = 44, ve_length = 8\<rparr>)]"
    and n: "ix_doc_norms (index_of out) =
            [(''2'', sqrt (2 * (log 10 3 * log 10 3) + log 10 (3 / 2) * log 10 (3 / 2))),
             (''1'', sqrt (2 * (log 10 (3 / 2) * log 10 (3 / 2)) + log 10 3 * log 10 3)),
             (''3'', sqrt (log 10 3 * log 10 3 + log 10 (3 / 2) * log 10 (3 / 2)))]"
    by (elim exE conjE)
  have ne: "ix_doc_norms (index_of out) \<noteq> []" by (simp add: n)
  have obj: "\<forall>data. sample_loads data \<noteq> Some JOther"
    unfolding sample_loads_def by (rule table_loads_object)
  have k: "(1::int) \<le> 10" by simp
  from query_total [OF sample_preprocess(1) ne obj k] obtain res where
    q: "query (\<lambda>s. s) sample_stem sample_env fresh sample_loads (index_of out)
           (Some ''el gato come xyz'') 10 = Inr (sample_resources, res)" ..
  note thm1 = bytes_read_exact [OF sample_preprocess(1), of sample_loads "index_of out" 10]
  from thm1 have "\<forall>r'' res. query (\<lambda>s. s) sample_stem sample_env fresh sample_loads (index_of out)
           (Some ''el gato come xyz'') 10 = Inr (r'', res)
        \<longrightarrow> bytes_read res = touched_bytes (index_of out) [''gato'', ''com'', ''xyz'']"
    by (rule conjunct1)
  then have "bytes_read res = touched_bytes (index_of out) [''gato'', ''com'', ''xyz'']"
    using q by (elim allE impE)
  also have "\<dots> = 19" by (simp add: touched_bytes_def v)
  finally have b: "bytes_read res = 19" .
  note thm2 = bytes_read_exact [OF sample_preprocess(2), of sample_loads "index_of out" 10]
  have absent: "\<forall>t\<in>set [''xyz'']. map_of (ix_vocab (index_of out)) t = None"
    by (simp add: v)
  from thm2 have "(\<forall>t\<in>set [''xyz'']. map_of (ix_vocab (index_of out)) t = None)
        \<longrightarrow> query (\<lambda>s. s) sample_stem sample_env fresh sample_loads (index_of out)
           (Some ''el xyz'') 10 = Inr (sample_resources, \<lparr>results = [], bytes_read = 0\<rparr>)"
    by (rule conjunct2 [THEN conjunct1])
  then have a: "query (\<lambda>s. s) sample_stem sample_env fresh sample_loads (index_of out)
           (Some ''el xyz'') 10 = Inr (sample_resources, \<lparr>results = [], bytes_read = 0\<rparr>)"
    using absent by (rule mp)
  show ?thesis
  proof (intro exI conjI)
    show "merge_blocks sample_dumps sample_dir = Inr out" by (rule m)
    show "query (\<lambda>s. s) sample_stem sample_env fresh sample_loads (index_of out)
           (Some ''el gato come xyz'') 10 = Inr (sample_resources, res)" by (rule q)
    show "bytes_read res = 19" by (rule b)
    show "query (\<lambda>s. s) sample_stem sample_env fresh sample_loads (index_of out)
           (Some ''el xyz'') 10 = Inr (sample_resources, \<lparr>results = [], bytes_read = 0\<rparr>)"
      by (rule a)
  qed
qed

lemma sample_query_returns:
  assumes "merge_blocks sample_dumps sample_dir = Inr out"
    and "ix_doc_norms (index_of out) \<noteq> []"
    and "preprocess (\<lambda>s. s) sample_stem sample_env fresh qtext = Inr (sample_resources, tokens)"
  shows "\<exists>res. query (\<lambda>s. s) sample_stem sample_env fresh sample_loads (index_of out) qtext 10
           = Inr (sample_resources, res)"
proof -
  have obj: "\<forall>data. sample_loads data \<noteq> Some JOther"
    unfolding sample_loads_def by (rule table_loads_object)
  have k: "(1::int) \<le> 10" by simp
  from query_total [OF assms(3,2) obj k] show ?thesis .
qed

theorem results_without_duplicates_witness:
  "\<exists>out res. merge_blocks sample_dumps sample_dir = Inr out
     \<and> query (\<lambda>s. s) sample_stem sample_env fresh sample_loads (index_of out)
           (Some ''el gato come xyz'') 10 = Inr (sample_resources, res)
     \<and> distinct (map fst (results res))"
proof -
  from sample_index obtain out where
    m: "merge_blocks sample_dumps sample_dir = Inr out"
    and n: "ix_doc_norms (index_of out) =
            [(''2'', sqrt (2 * (log 10 3 * log 10 3) + log 10 (3 / 2) * log 10 (3 / 2))),
             (''1'', sqrt (2 * (log 10 (3 / 2) * log 10 (3 / 2)) + log 10 3 * log 10 3)),
             (''3'', sqrt (log 10 3 * log 10 3 + log 10 (3 / 2) * log 10 (3 / 2)))]"
    by (elim exE conjE)
  have ne: "ix_doc_norms (index_of out) \<noteq> []" by (simp add: n)
  from sample_query_returns [OF m ne sample_preprocess(1)] obtain res where
    q: "query (\<lambda>s. s) sample_stem sample_env fresh sample_loads (index_of out)
           (Some ''el gato come xyz'') 10 = Inr (sample_resources, res)" ..
  have d: "distinct (map fst (results res))"
    using results_without_duplicates [OF sample_preprocess(1) q] by (rule conjunct1)
  show ?thesis
  proof (intro exI conjI)
    show "merge_blocks sample_dumps sample_dir = Inr out" by (rule m)
    show "query (\<lambda>s. s) sample_stem sample_env fresh sample_loads (index_of out)
           (Some ''el gato come xyz'') 10 = Inr (sample_resources, res)" by (rule q)
    show "distinct (map fst (results res))" by (rule d)
  qed
qed

lemma log_three_positive: "0 < log 10 3 * log 10 3"
  by simp

lemma sample_gato_line:
  "sample_loads (''gato:1,3,'' @ [CHR 0x0A])
     = Some (as_json (make_record 3 ''gato'' [(''1'', 1), (''3'', 1)]))"
  unfolding sample_loads_def sample_records
  by (simp add: table_loads_def encode_line_def sample_dumps_def make_record_def)

theorem results_length_witness:
  "\<exists>out res. merge_blocks sample_dumps sample_dir = Inr out
     \<and> query (\<lambda>s. s) sample_stem sample_env fresh sample_loads (index_of out)
           (Some ''gato'') 10 = Inr (sample_resources, res)
     \<and> length (results res) = 2"
proof -
  from sample_index obtain out where
    m: "merge_blocks sample_dumps sample_dir = Inr out"
    and i: "ix_inverted (index_of out) =
           ''carn:2,'' @ [CHR 0x0A] @ ''com:1,2,'' @ [CHR 0x0A] @ ''duerm:3,'' @ [CHR 0x0A]
            @ ''gato:1,3,'' @ [CHR 0x0A] @ ''perr:2,'' @ [CHR 0x0A] @ ''pesc:1,'' @ [CHR 0x0A]"
    and v: "ix_vocab (index_of out) =
            [(''carn'', \<lparr>ve_df = 1, ve_offset = 0, ve_length = 8\<rparr>),
             (''com'', \<lparr>ve_df = 2, ve_offset = 8, ve_length = 9\<rparr>),
             (''duerm'', \<lparr>ve_df = 1, ve_offset = 17, ve_length = 9\<rparr>),
             (''gato'', \<lparr>ve_df = 2, ve_offset = 26, ve_length = 10\<rparr>),
             (''perr'', \<lparr>ve_df = 1, ve_offset = 36, ve_length = 8\<rparr>),
             (''pesc'', \<lparr>ve_df = 1, ve_offset = 44, ve_length = 8\<rparr>)]"
    and n: "ix_doc_norms (index_of out) =
            [(''2'', sqrt (2 * (log 10 3 * log 10 3) + log 10 (3 / 2) * log 10 (3 / 2))),
             (''1'', sqrt (2 * (log 10 (3 / 2) * log 10 (3 / 2)) + log 10 3 * log 10 3)),
             (''3'', sqrt (log 10 3 * log 10 3 + log 10 (3 / 2) * log 10 (3 / 2)))]"
    by (elim exE conjE)
  have ne: "ix_doc_norms (index_of out) \<noteq> []" by (simp add: n)
  from sample_query_returns [OF m ne sample_preprocess(3)] obtain res where
    q: "query (\<lambda>s. s) sample_stem sample_env fresh sample_loads (index_of out)
           (Some ''gato'') 10 = Inr (sample_resources, res)" ..
  have slice: "take 10 (drop 26 (ix_inverted (index_of out))) = ''gato:1,3,'' @ [CHR 0x0A]"
    by (simp add: i)
  have "read_postings sample_loads (index_of out) ''gato''
      = Inr (rec_postings (make_record 3 ''gato'' [(''1'', 1), (''3'', 1)]), 10)"
    by (simp add: read_postings_def v slice sample_gato_line [simplified] as_json_def)
  then have c: "candidates sample_loads (index_of out) [''gato''] = {''1'', ''3''}"
    by (simp add: candidates_def postings_of_def make_record_def)
  have a: "0 < 2 * (log 10 (3 / 2) * log 10 (3 / 2)) + log 10 3 * log 10 3"
    using log_three_positive by (simp add: add_nonneg_pos)
  have b: "0 < log 10 3 * log 10 3 + log 10 (3 / 2) * log 10 (3 / 2)"
    using log_three_positive by (simp add: add_pos_nonneg)
  have n1: "doc_norm (index_of out) ''1'' \<noteq> 0" using a by (simp add: doc_norm_def n)
  have "0 < log 10 (3::real)" by simp
  then have l3: "log 10 3 \<noteq> (0::real)" by linarith
  have n3: "doc_norm (index_of out) ''3'' \<noteq> 0" using b l3 by (simp add: doc_norm_def n)
  have "{d \<in> candidates sample_loads (index_of out) [''gato'']. doc_norm (index_of out) d \<noteq> 0}
      = {''1'', ''3''}"
    unfolding c using n1 n3 by auto
  then have card: "card {d \<in> candidates sample_loads (index_of out) [''gato''].
      doc_norm (index_of out) d \<noteq> 0} = 2"
    by simp
  have k: "(1::int) \<le> 10" by simp
  have l: "length (results res) = 2"
    using results_length [OF sample_preprocess(3) q k] card by simp
  show ?thesis
  proof (intro exI conjI)
    show "merge_blocks sample_dumps sample_dir = Inr out" by (rule m)
    show "query (\<lambda>s. s) sample_stem sample_env fresh sample_loads (index_of out)
           (Some ''gato'') 10 = Inr (sample_resources, res)" by (rule q)
    show "length (results res) = 2" by (rule l)
  qed
qed

lemma zero_files:
  "block_files zero_dir =
     [(''block_0.json'',
       Some [(''gato'', [(DStr ''1'', 1), (DStr ''2'', 1)]), (''perro'', [(DStr ''1'', 1)])])]"
  unfolding zero_dir_def sample_names by (simp add: block_files_def glob_match_def)

lemma zero_aggregate:
  "aggregate [[(''gato'', [(DStr ''1'', 1), (DStr ''2'', 1)]), (''perro'', [(DStr ''1'', 1)])]]
     = ([(''gato'', [(''1'', 1), (''2'', 1)]), (''perro'', [(''1'', 1)])], [''2'', ''1''])"
  by (simp add: aggregate_def read_block_def read_posting_def add_posting_def add_tf_def)

lemma zero_index:
  "\<exists>out. merge_blocks sample_dumps zero_dir = Inr out
     \<and> ix_inverted (index_of out) = ''gato:1,2,'' @ [CHR 0x0A] @ ''perro:1,'' @ [CHR 0x0A]
     \<and> ix_vocab (index_of out) =
            [(''gato'', \<lparr>ve_df = 2, ve_offset = 0, ve_length = 10\<rparr>),
             (''perro'', \<lparr>ve_df = 1, ve_offset = 10, ve_length = 9\<rparr>)]
     \<and> ix_doc_norms (index_of out) = [(''1'', \<bar>log 10 2\<bar>), (''2'', 0)]"
  by (simp add: merge_blocks_def zero_files zero_aggregate Let_def write_terms_def
      write_term_def docs_of_def make_record_def encode_line_def sample_dumps_def add_square_def
      index_of_def idf_def tf_weight_def)

lemma zero_records:
  "merged_records sample_dumps zero_dir =
     [make_record 2 ''gato'' [(''1'', 1), (''2'', 1)], make_record 2 ''perro'' [(''1'', 1)]]"
  by (simp add: merged_records_def zero_files zero_aggregate term_records_def docs_of_def
      numeral_2_eq_2)

lemma zero_gato_line:
  "zero_loads (''gato:1,2,'' @ [CHR 0x0A])
     = Some (JObject (Some ''gato'') (Some 2) (Some [(''1'', 0), (''2'', 0)]))"
  unfolding zero_loads_def zero_records
  by (simp add: table_loads_def encode_line_def sample_dumps_def make_record_def as_json_def
      idf_def tf_weight_def)

text \<open>
  Claim C2, as stated, fails. In the index of the two documents \<open>gato perro\<close> and \<open>gato\<close>
  the term \<open>gato\<close> is in every document, so its idf and every weight and dot product it
  yields are zero. Document 1 has a norm that is not zero (from \<open>perro\<close>) and the query
  \<open>gato\<close> returns it with score zero: one result where no candidate has a nonzero score.
\<close>

theorem zero_score_in_results:
  "\<exists>out. merge_blocks sample_dumps zero_dir = Inr out
     \<and> query (\<lambda>s. s) sample_stem sample_env fresh zero_loads (index_of out) (Some ''gato'') 10
         = Inr (sample_resources, \<lparr>results = [(''1'', 0)], bytes_read = 10\<rparr>)"
proof -
  from zero_index obtain out where
    m: "merge_blocks sample_dumps zero_dir = Inr out"
    and i: "ix_inverted (index_of out) = ''gato:1,2,'' @ [CHR 0x0A] @ ''perro:1,'' @ [CHR 0x0A]"
    and v: "ix_vocab (index_of out) =
            [(''gato'', \<lparr>ve_df = 2, ve_offset = 0, ve_length = 10\<rparr>),
             (''perro'', \<lparr>ve_df = 1, ve_offset = 10, ve_length = 9\<rparr>)]"
    and n: "ix_doc_norms (index_of out) = [(''1'', \<bar>log 10 2\<bar>), (''2'', 0)]"
    by (elim exE conjE)
  have "0 < log 10 (2::real)" by simp
  then have l2: "log 10 2 \<noteq> (0::real)" by linarith
  have slice: "take 10 (drop 0 (ix_inverted (index_of out))) = ''gato:1,2,'' @ [CHR 0x0A]"
    by (simp add: i)
  have rp: "read_postings zero_loads (index_of out) ''gato'' = Inr ([(''1'', 0), (''2'', 0)], 10)"
    using slice by (simp add: read_postings_def v zero_gato_line [simplified])
  have idf0: "query_idf (index_of out) 2 = Inr 0"
    by (simp add: query_idf_def py_log10_def n)
  have st: "score_terms zero_loads (index_of out) (count_tokens [''gato''])
        \<lparr>accum = [], q_sq_sum = 0, bytes = 0\<rparr>
      = Inr \<lparr>accum = [(''1'', 0), (''2'', 0)], q_sq_sum = 0, bytes = 10\<rparr>"
    by (simp add: count_tokens_def v idf0 rp add_dot_def)
  have top: "select_top (index_of out) 10 1 [(''1'', 0), (''2'', 0)] [] = Inr [(0, ''1'')]"
    using l2 by (simp add: doc_norm_def n heappush_def)
  have "score_tokens zero_loads (index_of out) [''gato''] 10
      = Inr \<lparr>results = [(''1'', 0)], bytes_read = 10\<rparr>"
    unfolding score_tokens_def st by (simp add: top sorted_desc_def del: select_top.simps)
  then have q: "query (\<lambda>s. s) sample_stem sample_env fresh zero_loads (index_of out) (Some ''gato'') 10
         = Inr (sample_resources, \<lparr>results = [(''1'', 0)], bytes_read = 10\<rparr>)"
    by (simp add: query_def sample_preprocess(3))
  show ?thesis
  proof (intro exI conjI)
    show "merge_blocks sample_dumps zero_dir = Inr out" by (rule m)
    show "query (\<lambda>s. s) sample_stem sample_env fresh zero_loads (index_of out) (Some ''gato'') 10
         = Inr (sample_resources, \<lparr>results = [(''1'', 0)], bytes_read = 10\<rparr>)" by (rule q)
  qed
qed

lemma record_postings_formula:
  assumes "aggregate blocks = (tab, ids)"
  shows "rec_postings (make_record N t (docs_of tab t)) =
     map (\<lambda>d. (d, tf_weight (total_tf blocks t d) * idf N (length (docs_of tab t))))
       (docs_met blocks t)"
proof -
  let ?docs = "docs_of tab t"
  have dist: "distinct (map fst ?docs)" by (rule aggregate_facts(6) [OF assms])
  have tf: "tf = total_tf blocks t d" if "(d, tf) \<in> set ?docs" for d tf
  proof -
    from that dist have "map_of ?docs d = Some tf" by simp
    then show ?thesis unfolding aggregate_facts(7) [OF assms] by (simp split: if_splits)
  qed
  have "map (\<lambda>(d, tf). (d, tf_weight tf * idf N (length ?docs))) ?docs
      = map (\<lambda>p. (fst p, tf_weight (total_tf blocks t (fst p)) * idf N (length ?docs))) ?docs"
    by (rule map_cong) (auto dest: tf)
  also have "\<dots> = map (\<lambda>d. (d, tf_weight (total_tf blocks t d) * idf N (length ?docs)))
      (map fst ?docs)"
    by (simp add: comp_def)
  finally show ?thesis
    using aggregate_facts(5) [OF assms, of t] by (simp add: make_record_def)
qed

lemma term_records_member:
  assumes "r \<in> set (term_records N tab)"
  obtains t where "t \<in> fst ` set tab" "r = make_record N t (docs_of tab t)"
  using assms by (auto simp: term_records_def)

lemma docs_of_nonempty:
  assumes "aggregate blocks = (tab, ids)" and "t \<in> fst ` set tab"
  shows "docs_of tab t \<noteq> []"
proof -
  from assms(2) obtain d n where "(t, d, n) \<in> set (occurrences blocks)"
    unfolding aggregate_facts(4) [OF assms(1)] by auto
  then have "d \<in> set (docs_met blocks t)" unfolding docs_met_set by blast
  then have "d \<in> set (map fst (docs_of tab t))"
    using aggregate_facts(5) [OF assms(1), of t] by simp
  then show ?thesis by auto
qed

text \<open>
  Claim C4. After a successful merge the persisted norm table has one entry for each
  distinct document of the blocks of the directory, and their number is the \<open>N\<close> of the
  merge. This size is the document count in the idf of every weight that the merge
  wrote: the postings store is the sequence of the lines of the records of the merge, and
  each record lists, for the documents of its term, the weight
  \<open>tf_weight tf * log10 (size of the norm table / df)\<close>. The idf that the query engine
  computes for the \<open>df\<close> of a record from the size of the loaded norm table is that same
  number.
\<close>

theorem norm_table_size:
  assumes "merge_blocks dumps dir = Inr out"
    and "those (map snd (block_files dir)) = Some blocks"
  shows "length (doc_norms out) = card ((\<lambda>(t, d, n). d) ` set (occurrences blocks))
    \<and> fst ` set (doc_norms out) = (\<lambda>(t, d, n). d) ` set (occurrences blocks)
    \<and> distinct (map fst (doc_norms out))
    \<and> out_N out = length (doc_norms out)
    \<and> 0 < length (doc_norms out)
    \<and> inverted out = concat (map (encode_line dumps) (merged_records dumps dir))
    \<and> (\<forall>r\<in>set (merged_records dumps dir).
          0 < rec_df r
        \<and> rec_postings r =
            map (\<lambda>d. (d, tf_weight (total_tf blocks (rec_term r) d)
                          * log 10 (real (length (doc_norms out)) / real (rec_df r))))
              (docs_met blocks (rec_term r))
        \<and> query_idf (index_of out) (rec_df r)
            = Inr (log 10 (real (length (doc_norms out)) / real (rec_df r))))"
proof -
  from assms(1) obtain blocks' tab ids where
    b: "those (map snd (block_files dir)) = Some blocks'" and
    agg': "aggregate blocks' = (tab, ids)" and ne: "ids \<noteq> []" and
    recs: "merged_records dumps dir = term_records (length ids) tab" and
    out: "out = \<lparr>inverted = invf (write_terms dumps (length ids) tab),
            out_vocab = vocab (write_terms dumps (length ids) tab),
            doc_norms = map (\<lambda>(d, sq). (d, sqrt sq)) (doc_sq_sums (write_terms dumps (length ids) tab)),
            out_N = length ids\<rparr>"
    by (rule merge_blocks_records)
  from b assms(2) have "blocks' = blocks" by simp
  with agg' have agg: "aggregate blocks = (tab, ids)" by simp
  let ?keys = "map fst (doc_sq_sums (write_terms dumps (length ids) tab))"
  let ?docs = "(\<lambda>(t, d, n). d) ` set (occurrences blocks)"
  have keys: "map fst (doc_norms out) = ?keys"
    by (simp add: out case_prod_unfold comp_def)
  have d: "distinct ?keys" and s: "set ?keys = set ids"
    using write_terms_sums [OF agg] by simp_all
  have ids: "set ids = ?docs" by (rule aggregate_facts(3) [OF agg])
  have "length ?keys = card (set ?keys)" using distinct_card [OF d] by simp
  then have len_card: "length (doc_norms out) = card ?docs"
    using keys s ids by (metis length_map)
  have "card (set ids) = length ids" using aggregate_facts(2) [OF agg] by (rule distinct_card)
  then have n: "out_N out = length (doc_norms out)"
    using len_card ids by (simp add: out)
  have pos: "0 < length (doc_norms out)" using ne n by (simp add: out)
  have set_keys: "fst ` set (doc_norms out) = ?docs"
    using keys s ids by (metis set_map)
  have dist: "distinct (map fst (doc_norms out))" using keys d by simp
  have inv: "inverted out = concat (map (encode_line dumps) (merged_records dumps dir))"
    using assms(1) by (rule merged_layout(1))
  have N: "length ids = length (doc_norms out)" using n by (simp add: out)
  have records: "0 < rec_df r
        \<and> rec_postings r =
            map (\<lambda>d. (d, tf_weight (total_tf blocks (rec_term r) d)
                          * log 10 (real (length (doc_norms out)) / real (rec_df r))))
              (docs_met blocks (rec_term r))
        \<and> query_idf (index_of out) (rec_df r)
            = Inr (log 10 (real (length (doc_norms out)) / real (rec_df r)))"
    if "r \<in> set (merged_records dumps dir)" for r
  proof -
    from that obtain t where t: "t \<in> fst ` set tab"
      and r: "r = make_record (length ids) t (docs_of tab t)"
      unfolding recs by (rule term_records_member)
    have tm: "rec_term r = t" and df: "rec_df r = length (docs_of tab t)"
      by (simp_all add: r make_record_def)
    have dpos: "0 < rec_df r" using docs_of_nonempty [OF agg t] df by simp
    have "rec_postings r =
       map (\<lambda>d. (d, tf_weight (total_tf blocks t d) * idf (length ids) (length (docs_of tab t))))
         (docs_met blocks t)"
      unfolding r by (rule record_postings_formula [OF agg])
    then have w: "rec_postings r =
            map (\<lambda>d. (d, tf_weight (total_tf blocks (rec_term r) d)
                          * log 10 (real (length (doc_norms out)) / real (rec_df r))))
              (docs_met blocks (rec_term r))"
      using dpos by (simp add: tm df N idf_def)
    have "query_idf (index_of out) (rec_df r)
            = Inr (log 10 (real (length (doc_norms out)) / real (rec_df r)))"
      using dpos pos by (auto simp: query_idf_def py_log10_def index_of_def divide_le_0_iff)
    with dpos w show ?thesis by simp
  qed
  from len_card set_keys dist n pos inv records show ?thesis by blast
qed

lemma sample_documents:
  "(\<lambda>(t, d, n). d) ` set (occurrences sample_blocks) = {''1'', ''2'', ''3''}"
  by (auto simp: occurrences_def sample_blocks_def)

theorem norm_table_size_witness:
  "\<exists>out. merge_blocks sample_dumps sample_dir = Inr out
     \<and> length (doc_norms out) = 3 \<and> out_N out = 3
     \<and> rec_postings (make_record 3 ''gato'' [(''1'', 1), (''3'', 1)])
         = [(''1'', tf_weight (total_tf sample_blocks ''gato'' ''1'') * log 10 (3 / 2)),
            (''3'', tf_weight (total_tf sample_blocks ''gato'' ''3'') * log 10 (3 / 2))]
     \<and> query_idf (index_of out) 2 = Inr (log 10 (3 / 2))"
proof -
  from sample_merge obtain out where
    m: "merge_blocks sample_dumps sample_dir = Inr out"
    by (elim exE)
  note facts = norm_table_size [OF m sample_those]
  have c: "card {''1'', ''2'', ''3''} = (3::nat)" by simp
  from facts have len: "length (doc_norms out) = 3"
    unfolding sample_documents c by (elim conjE)
  from facts have n: "out_N out = length (doc_norms out)" by (elim conjE)
  from facts have all: "\<forall>r\<in>set (merged_records sample_dumps sample_dir).
          0 < rec_df r
        \<and> rec_postings r =
            map (\<lambda>d. (d, tf_weight (total_tf sample_blocks (rec_term r) d)
                          * log 10 (real (length (doc_norms out)) / real (rec_df r))))
              (docs_met sample_blocks (rec_term r))
        \<and> query_idf (index_of out) (rec_df r)
            = Inr (log 10 (real (length (doc_norms out)) / real (rec_df r)))"
    by (elim conjE)
  let ?r = "make_record 3 ''gato'' [(''1'', 1), (''3'', 1)]"
  have mem: "?r \<in> set (merged_records sample_dumps sample_dir)"
    unfolding sample_records by simp
  have f: "rec_term ?r = ''gato''" "rec_df ?r = 2" by (simp_all add: make_record_def)
  have dm: "docs_met sample_blocks ''gato'' = [''1'', ''3'']"
    by (simp add: docs_met_def occurrences_def sample_blocks_def)
  note inst = bspec [OF all mem]
  note inst [THEN conjunct2, THEN conjunct1] inst [THEN conjunct2, THEN conjunct2]
  then have p: "rec_postings ?r
         = [(''1'', tf_weight (total_tf sample_blocks ''gato'' ''1'') * log 10 (3 / 2)),
            (''3'', tf_weight (total_tf sample_blocks ''gato'' ''3'') * log 10 (3 / 2))]"
    and q: "query_idf (index_of out) 2 = Inr (log 10 (3 / 2))"
    unfolding f dm len by simp_all
  show ?thesis
  proof (intro exI conjI)
    show "merge_blocks sample_dumps sample_dir = Inr out" by (rule m)
    show "length (doc_norms out) = 3" by (rule len)
    show "out_N out = 3" using n len by simp
    show "rec_postings (make_record 3 ''gato'' [(''1'', 1), (''3'', 1)])
         = [(''1'', tf_weight (total_tf sample_blocks ''gato'' ''1'') * log 10 (3 / 2)),
            (''3'', tf_weight (total_tf sample_blocks ''gato'' ''3'') * log 10 (3 / 2))]"
      by (rule p)
    show "query_idf (index_of out) 2 = Inr (log 10 (3 / 2))" by (rule q)
  qed
qed

end
